theory Spec2Isabelle
  imports Complex_Main "HOL-Library.Sublist"
begin

unbundle bit_operations_syntax

section \<open>JavaScript numbers\<close>

text \<open>
  Every value of TypeScript's type \<open>number\<close> is either a finite number or one of the
  three special values \<open>Infinity\<close>, \<open>-Infinity\<close> and \<open>NaN\<close>. The special values are
  kept, with the rules the language gives them (\<open>NaN\<close> is absorbing and compares false
  with everything, \<open>Infinity - Infinity\<close> and \<open>0 * Infinity\<close> are \<open>NaN\<close>, a non-zero
  number divided by zero is an infinity). The operators of this section are the exact
  ones: on finite numbers they are arithmetic on the reals. Rounding to 53 bits,
  overflow and underflow are the function \<open>fl\<close> of the next section; the definitions
  whose claims depend on the rounding (the log-posterior at extreme arguments, the
  conjugate update) apply it after every operation, the others are read in exact
  arithmetic. The sign of zero is not modelled: a zero divisor is taken to be \<open>+0\<close>.
\<close>

datatype jsnum = Fin real | PInf | NInf | NaN

fun jneg :: "jsnum \<Rightarrow> jsnum" where
  "jneg (Fin a) = Fin (- a)"
| "jneg PInf = NInf"
| "jneg NInf = PInf"
| "jneg NaN = NaN"

fun jadd :: "jsnum \<Rightarrow> jsnum \<Rightarrow> jsnum" where
  "jadd (Fin a) (Fin b) = Fin (a + b)"
| "jadd NaN _ = NaN"
| "jadd _ NaN = NaN"
| "jadd PInf NInf = NaN"
| "jadd NInf PInf = NaN"
| "jadd PInf _ = PInf"
| "jadd _ PInf = PInf"
| "jadd NInf _ = NInf"
| "jadd _ NInf = NInf"

fun jmul :: "jsnum \<Rightarrow> jsnum \<Rightarrow> jsnum" where
  "jmul (Fin a) (Fin b) = Fin (a * b)"
| "jmul NaN _ = NaN"
| "jmul _ NaN = NaN"
| "jmul (Fin a) PInf = (if a = 0 then NaN else if 0 < a then PInf else NInf)"
| "jmul (Fin a) NInf = (if a = 0 then NaN else if 0 < a then NInf else PInf)"
| "jmul PInf (Fin b) = (if b = 0 then NaN else if 0 < b then PInf else NInf)"
| "jmul NInf (Fin b) = (if b = 0 then NaN else if 0 < b then NInf else PInf)"
| "jmul PInf PInf = PInf"
| "jmul PInf NInf = NInf"
| "jmul NInf PInf = NInf"
| "jmul NInf NInf = PInf"

fun jdiv :: "jsnum \<Rightarrow> jsnum \<Rightarrow> jsnum" where
  "jdiv (Fin a) (Fin b) =
     (if b = 0 then (if a = 0 then NaN else if 0 < a then PInf else NInf) else Fin (a / b))"
| "jdiv NaN _ = NaN"
| "jdiv _ NaN = NaN"
| "jdiv (Fin a) _ = Fin 0"
| "jdiv PInf (Fin b) = (if 0 \<le> b then PInf else NInf)"
| "jdiv NInf (Fin b) = (if 0 \<le> b then NInf else PInf)"
| "jdiv _ _ = NaN"

fun jle :: "jsnum \<Rightarrow> jsnum \<Rightarrow> bool" where
  "jle (Fin a) (Fin b) = (a \<le> b)"
| "jle NaN _ = False"
| "jle _ NaN = False"
| "jle NInf _ = True"
| "jle _ PInf = True"
| "jle _ _ = False"

fun jlt :: "jsnum \<Rightarrow> jsnum \<Rightarrow> bool" where
  "jlt (Fin a) (Fin b) = (a < b)"
| "jlt NaN _ = False"
| "jlt _ NaN = False"
| "jlt PInf _ = False"
| "jlt _ NInf = False"
| "jlt _ _ = True"

text \<open>
  The operators of the source are the operators of the model: \<open>+\<close>, \<open>-\<close>, \<open>*\<close>, \<open>/\<close>,
  \<open>\<le>\<close> and \<open><\<close> on \<open>jsnum\<close> are the functions above. The comparisons are not an order
  (\<open>NaN \<le> NaN\<close> is false), so only the syntax class \<open>ord\<close> is instantiated.
\<close>

instantiation jsnum :: "{zero, one, plus, minus, uminus, times, inverse, ord}"
begin
definition zero_jsnum_def: "0 = Fin 0"
definition one_jsnum_def: "1 = Fin 1"
definition plus_jsnum_def: "a + b = jadd a b"
definition uminus_jsnum_def: "- a = jneg a"
definition minus_jsnum_def: "a - b = jadd a (jneg b)"
definition times_jsnum_def: "a * b = jmul a b"
definition divide_jsnum_def: "a div b = jdiv a b"
definition inverse_jsnum_def: "inverse a = jdiv (Fin 1) a"
definition less_eq_jsnum_def: "a \<le> b \<longleftrightarrow> jle a b"
definition less_jsnum_def: "a < b \<longleftrightarrow> jlt a b"
instance ..
end

instance jsnum :: semigroup_add
proof
  fix a b c :: jsnum
  show "a + b + c = a + (b + c)"
    unfolding plus_jsnum_def by (cases a; cases b; cases c) simp_all
qed

instance jsnum :: numeral ..

instance jsnum :: power ..

text \<open>Counters and indices of the source are integers; used as numbers they are finite.\<close>

definition Num :: "nat \<Rightarrow> jsnum" where
  "Num n = Fin (real n)"

definition NumI :: "int \<Rightarrow> jsnum" where
  "NumI n = Fin (real_of_int n)"

fun isFinite :: "jsnum \<Rightarrow> bool" where
  "isFinite (Fin a) = True"
| "isFinite _ = False"

fun Math_log :: "jsnum \<Rightarrow> jsnum" where
  "Math_log (Fin a) = (if a < 0 then NaN else if a = 0 then NInf else Fin (ln a))"
| "Math_log PInf = PInf"
| "Math_log NInf = NaN"
| "Math_log NaN = NaN"

fun Math_exp :: "jsnum \<Rightarrow> jsnum" where
  "Math_exp (Fin a) = Fin (exp a)"
| "Math_exp PInf = PInf"
| "Math_exp NInf = Fin 0"
| "Math_exp NaN = NaN"

fun Math_sqrt :: "jsnum \<Rightarrow> jsnum" where
  "Math_sqrt (Fin a) = (if a < 0 then NaN else Fin (sqrt a))"
| "Math_sqrt PInf = PInf"
| "Math_sqrt NInf = NaN"
| "Math_sqrt NaN = NaN"

fun Math_cos :: "jsnum \<Rightarrow> jsnum" where
  "Math_cos (Fin a) = Fin (cos a)"
| "Math_cos _ = NaN"

fun Math_sin :: "jsnum \<Rightarrow> jsnum" where
  "Math_sin (Fin a) = Fin (sin a)"
| "Math_sin _ = NaN"

definition Math_max :: "jsnum \<Rightarrow> jsnum \<Rightarrow> jsnum" where
  "Math_max a b = (if a = NaN \<or> b = NaN then NaN else if a < b then b else a)"

definition Math_PI :: jsnum where
  "Math_PI = Fin pi"

lemmas jsnum_ops = zero_jsnum_def one_jsnum_def plus_jsnum_def uminus_jsnum_def minus_jsnum_def
  times_jsnum_def divide_jsnum_def less_eq_jsnum_def less_jsnum_def

lemma numeral_jsnum: "(numeral n :: jsnum) = Fin (numeral n)"
proof (induction n)
  case One
  show ?case by (simp add: one_jsnum_def)
next
  case (Bit0 n)
  have "(numeral (num.Bit0 n) :: jsnum) = numeral n + numeral n"
    by (rule numeral_Bit0)
  also have "\<dots> = jadd (Fin (numeral n)) (Fin (numeral n))"
    by (simp only: Bit0 plus_jsnum_def)
  also have "\<dots> = Fin (numeral n + numeral n)" by simp
  also have "\<dots> = Fin (numeral (num.Bit0 n))" by (simp only: numeral_Bit0)
  finally show ?case .
next
  case (Bit1 n)
  have "(numeral (num.Bit1 n) :: jsnum) = numeral n + numeral n + 1"
    by (rule numeral_Bit1)
  also have "\<dots> = jadd (jadd (Fin (numeral n)) (Fin (numeral n))) (Fin 1)"
    by (simp only: Bit1 plus_jsnum_def one_jsnum_def)
  also have "\<dots> = Fin (numeral n + numeral n + 1)" by simp
  also have "\<dots> = Fin (numeral (num.Bit1 n))" by (simp only: numeral_Bit1)
  finally show ?case .
qed

lemma power_jsnum: "Fin a ^ n = Fin (a ^ n)"
  by (induction n) (simp_all add: one_jsnum_def times_jsnum_def)

text \<open>With these rules \<open>simp\<close> computes with number literals and finite numbers.\<close>

lemmas jsnum_lit = jsnum_ops numeral_jsnum power_jsnum Num_def NumI_def

text \<open>\<open>NaN\<close> is absorbing, and no comparison with it holds.\<close>

lemma not_less_NaN: "\<not> a < (NaN :: jsnum)"
  by (cases a) (simp_all add: less_jsnum_def)

lemma minus_NaN_left: "(NaN :: jsnum) - b = NaN"
  by (simp add: minus_jsnum_def)

lemma plus_NaN_right: "a + (NaN :: jsnum) = NaN"
  by (cases a) (simp_all add: plus_jsnum_def)

lemma times_NaN_right: "a * (NaN :: jsnum) = NaN"
  by (cases a) (simp_all add: times_jsnum_def)

lemma positive_if_not_le_0:
  fixes a :: jsnum
  shows "\<not> a \<le> 0 \<Longrightarrow> a \<noteq> NaN \<Longrightarrow> 0 < a"
  by (cases a) (simp_all add: jsnum_ops)

text \<open>
  An assignment \<open>a[j] = v\<close> to an array. The loops of the source only write inside the
  array or at its end, where JavaScript extends it by one element.
\<close>

definition array_set :: "'a list \<Rightarrow> nat \<Rightarrow> 'a \<Rightarrow> 'a list" where
  "array_set xs j v = (if j < length xs then xs[j := v] else xs @ [v])"

section \<open>Double precision\<close>

text \<open>
  A finite double is a number \<open>n * 2\<^sup>e\<close> with \<open>\<bar>n\<bar> < 2\<^sup>5\<^sup>3\<close> and \<open>-1074 \<le> e \<le> 971\<close>.
  \<open>round64\<close> is the rounding of a real to the nearest double, ties to even: a number
  with \<open>2\<^sup>k \<le> \<bar>x\<bar> < 2\<^sup>k\<^sup>+\<^sup>1\<close> is rounded to a multiple of \<open>2\<^sup>k\<^sup>-\<^sup>5\<^sup>2\<close>, below \<open>2\<^sup>-\<^sup>1\<^sup>0\<^sup>2\<^sup>2\<close> to a
  multiple of \<open>2\<^sup>-\<^sup>1\<^sup>0\<^sup>7\<^sup>4\<close> (so that a small number underflows to 0), and a result that
  reaches \<open>2\<^sup>1\<^sup>0\<^sup>2\<^sup>4\<close> overflows to an infinity. An operation \<open>a * b\<close> of the language on
  doubles is \<open>fl (a * b)\<close>, the exact result rounded; so are \<open>+\<close>, \<open>-\<close>, \<open>/\<close> and
  \<open>Math.sqrt\<close>.
\<close>

definition pow2 :: "int \<Rightarrow> real" where
  "pow2 k = (if 0 \<le> k then 2 ^ nat k else 1 / 2 ^ nat (- k))"

definition round_even :: "real \<Rightarrow> int" where
  "round_even x =
     (let f = \<lfloor>x\<rfloor>
      in if x - of_int f < 1 / 2 then f
         else if 1 / 2 < x - of_int f then f + 1
         else if even f then f else f + 1)"

definition round64 :: "real \<Rightarrow> jsnum" where
  "round64 x =
     (if x = 0 then Fin 0
      else
        (let e = max \<lfloor>log 2 \<bar>x\<bar>\<rfloor> (- 1022) - 52;
             y = of_int (round_even (x / pow2 e)) * pow2 e
         in if 2 ^ 1024 \<le> \<bar>y\<bar> then (if 0 < x then PInf else NInf) else Fin y))"

fun fl :: "jsnum \<Rightarrow> jsnum" where
  "fl (Fin a) = round64 a"
| "fl PInf = PInf"
| "fl NInf = NInf"
| "fl NaN = NaN"

text \<open>
  Bounds on a number: \<open>abs_within B x\<close> says that \<open>x\<close> is finite with \<open>\<bar>x\<bar> \<le> B\<close>, and
  \<open>in_range L U x\<close> that it is finite with \<open>L \<le> x \<le> U\<close>.
\<close>

fun abs_within :: "real \<Rightarrow> jsnum \<Rightarrow> bool" where
  "abs_within B (Fin a) = (\<bar>a\<bar> \<le> B)"
| "abs_within B PInf = False"
| "abs_within B NInf = False"
| "abs_within B NaN = False"

fun in_range :: "real \<Rightarrow> real \<Rightarrow> jsnum \<Rightarrow> bool" where
  "in_range L U (Fin a) = (L \<le> a \<and> a \<le> U)"
| "in_range L U PInf = False"
| "in_range L U NInf = False"
| "in_range L U NaN = False"

lemma pow2_powr: "pow2 k = 2 powr of_int k"
  by (simp add: pow2_def powr_int)

lemma pow2_positive: "0 < pow2 k"
  by (simp add: pow2_def)

lemma pow2_add: "pow2 (j + k) = pow2 j * pow2 k"
  by (simp add: pow2_powr powr_add)

lemma pow2_mono: "j \<le> k \<Longrightarrow> pow2 j \<le> pow2 k"
  by (simp add: pow2_powr)

lemma round_even_error: "\<bar>of_int (round_even x) - x\<bar> \<le> 1 / 2"
proof -
  define d where "d = x - of_int \<lfloor>x\<rfloor>"
  have d: "0 \<le> d" "d < 1" unfolding d_def by linarith+
  have x: "x = of_int \<lfloor>x\<rfloor> + d" by (simp add: d_def)
  consider "d < 1 / 2" | "1 / 2 < d" | "d = 1 / 2" by linarith
  then show ?thesis
  proof cases
    case 1
    then have "round_even x = \<lfloor>x\<rfloor>" by (simp add: round_even_def Let_def d_def)
    with 1 d x show ?thesis by simp
  next
    case 2
    then have "round_even x = \<lfloor>x\<rfloor> + 1" by (simp add: round_even_def Let_def d_def)
    with 2 d x show ?thesis by simp
  next
    case 3
    then have "round_even x = \<lfloor>x\<rfloor> \<or> round_even x = \<lfloor>x\<rfloor> + 1"
      by (simp add: round_even_def Let_def d_def)
    with 3 x show ?thesis by auto
  qed
qed

lemma round_even_nearest:
  assumes "\<bar>x - of_int n\<bar> < 1 / 2"
  shows "round_even x = n"
proof -
  have e: "\<bar>of_int (round_even x) - x\<bar> \<le> 1 / 2" by (rule round_even_error)
  from assms e have "\<bar>real_of_int (round_even x) - real_of_int n\<bar> < 1" by linarith
  then have "\<bar>real_of_int (round_even x - n)\<bar> < 1" by simp
  then have "\<bar>round_even x - n\<bar> < 1" by linarith
  then show ?thesis by simp
qed

lemma binade_bounds:
  assumes "x \<noteq> 0"
  shows "pow2 \<lfloor>log 2 \<bar>x\<bar>\<rfloor> \<le> \<bar>x\<bar>" and "\<bar>x\<bar> < pow2 (\<lfloor>log 2 \<bar>x\<bar>\<rfloor> + 1)"
  using assms floor_log_eq_powr_iff [of "\<bar>x\<bar>" 2 "\<lfloor>log 2 \<bar>x\<bar>\<rfloor>"]
  by (simp_all add: pow2_powr)


text \<open>The standard error bound of rounding, with the absolute term for the subnormal range.\<close>

lemma round64_error:
  assumes "\<bar>x\<bar> \<le> 2 ^ 1023"
  shows "\<exists>y. round64 x = Fin y \<and> \<bar>y - x\<bar> \<le> \<bar>x\<bar> / 2 ^ 53 + pow2 (- 1075)"
proof (cases "x = 0")
  case True
  then show ?thesis by (simp add: round64_def pow2_def)
next
  case False
  define K where "K = \<lfloor>log 2 \<bar>x\<bar>\<rfloor>"
  define e where "e = max K (- 1022) - 52"
  define y where "y = of_int (round_even (x / pow2 e)) * pow2 e"
  have pe: "0 < pow2 e" by (rule pow2_positive)
  have "\<bar>y - x\<bar> = \<bar>of_int (round_even (x / pow2 e)) - x / pow2 e\<bar> * pow2 e"
  proof -
    have "y - x = (of_int (round_even (x / pow2 e)) - x / pow2 e) * pow2 e"
      using pe by (simp add: y_def field_simps)
    then show ?thesis using pe by (simp add: abs_mult)
  qed
  also have "\<dots> \<le> 1 / 2 * pow2 e"
    using round_even_error [of "x / pow2 e"] pe by (intro mult_right_mono) simp_all
  finally have d: "\<bar>y - x\<bar> \<le> pow2 e / 2" by simp
  have b: "pow2 e / 2 \<le> \<bar>x\<bar> / 2 ^ 53 + pow2 (- 1075)"
  proof (cases "- 1022 \<le> K")
    case True
    then have "e = K - 52" by (simp add: e_def)
    then have "pow2 e = pow2 K * pow2 (- 52)"
      using pow2_add [of K "- 52"] by simp
    also have "\<dots> \<le> \<bar>x\<bar> * pow2 (- 52)"
      using binade_bounds(1) [OF False] pow2_positive [of "- 52"]
      by (intro mult_right_mono) (simp_all add: K_def)
    finally have "pow2 e / 2 \<le> \<bar>x\<bar> / 2 ^ 53" by (simp add: pow2_def)
    moreover have "0 < pow2 (- 1075)" by (rule pow2_positive)
    ultimately show ?thesis by linarith
  next
    case False
    then have "e = - 1074" by (simp add: e_def)
    then have "pow2 e / 2 = pow2 (- 1075)" by (simp add: pow2_def)
    then show ?thesis by simp
  qed
  from d b have err: "\<bar>y - x\<bar> \<le> \<bar>x\<bar> / 2 ^ 53 + pow2 (- 1075)" by linarith
  have "pow2 (- 1075) \<le> 1" by (simp add: pow2_def)
  with err have "\<bar>y\<bar> \<le> \<bar>x\<bar> + \<bar>x\<bar> / 2 ^ 53 + 1" by linarith
  also have "\<dots> \<le> 2 ^ 1023 + 2 ^ 1023 / 2 ^ 53 + 1"
    using assms by (intro add_mono divide_right_mono) simp_all
  also have "\<dots> < 2 ^ 1024" by simp
  finally have "\<not> 2 ^ 1024 \<le> \<bar>y\<bar>" by simp
  then have "round64 x = Fin y"
    using False by (simp add: round64_def Let_def K_def e_def y_def)
  with err show ?thesis by blast
qed


lemma round64_underflow:
  assumes "\<bar>x\<bar> < pow2 (- 1075)"
  shows "round64 x = Fin 0"
proof (cases "x = 0")
  case True
  then show ?thesis by (simp add: round64_def)
next
  case False
  have "\<lfloor>log 2 \<bar>x\<bar>\<rfloor> < - 1075"
  proof (rule ccontr)
    assume "\<not> \<lfloor>log 2 \<bar>x\<bar>\<rfloor> < - 1075"
    then have "pow2 (- 1075) \<le> pow2 \<lfloor>log 2 \<bar>x\<bar>\<rfloor>" by (intro pow2_mono) simp
    with binade_bounds(1) [OF False] assms show False by linarith
  qed
  then have e: "max \<lfloor>log 2 \<bar>x\<bar>\<rfloor> (- 1022) - 52 = - 1074" by simp
  have "\<bar>x / pow2 (- 1074) - of_int 0\<bar> < 1 / 2"
  proof -
    have "pow2 (- 1075) = pow2 (- 1074) / 2" by (simp add: pow2_def)
    with assms have "\<bar>x\<bar> < pow2 (- 1074) / 2" by simp
    then have a: "\<bar>x\<bar> / pow2 (- 1074) < 1 / 2"
      using pow2_positive [of "- 1074"] by (simp add: field_simps)
    have "\<bar>pow2 (- 1074)\<bar> = pow2 (- 1074)"
      using pow2_positive [of "- 1074"] by simp
    then have b: "\<bar>x / pow2 (- 1074)\<bar> = \<bar>x\<bar> / pow2 (- 1074)"
      by (simp only: abs_divide)
    have c: "x / pow2 (- 1074) - of_int 0 = x / pow2 (- 1074)" by simp
    show ?thesis unfolding c b by (rule a)
  qed
  then have "round_even (x / pow2 (- 1074)) = 0" by (rule round_even_nearest)
  then show ?thesis
    using False by (simp add: round64_def Let_def e)
qed

lemma round64_overflow:
  assumes "2 ^ 1025 \<le> \<bar>x\<bar>"
  shows "round64 x = (if 0 < x then PInf else NInf)"
proof -
  from assms have nz: "x \<noteq> 0" by auto
  define K where "K = \<lfloor>log 2 \<bar>x\<bar>\<rfloor>"
  define e where "e = max K (- 1022) - 52"
  define y where "y = of_int (round_even (x / pow2 e)) * pow2 e"
  have K: "1025 \<le> K"
  proof (rule ccontr)
    assume "\<not> 1025 \<le> K"
    then have "pow2 (K + 1) \<le> pow2 1025" by (intro pow2_mono) simp
    with binade_bounds(2) [OF nz] assms show False by (simp add: K_def pow2_def)
  qed
  then have e: "e = K - 52" by (simp add: e_def)
  have pe: "0 < pow2 e" by (rule pow2_positive)
  have "\<bar>y - x\<bar> = \<bar>of_int (round_even (x / pow2 e)) - x / pow2 e\<bar> * pow2 e"
  proof -
    have "y - x = (of_int (round_even (x / pow2 e)) - x / pow2 e) * pow2 e"
      using pe by (simp add: y_def field_simps)
    then show ?thesis using pe by (simp add: abs_mult)
  qed
  also have "\<dots> \<le> 1 / 2 * pow2 e"
    using round_even_error [of "x / pow2 e"] pe by (intro mult_right_mono) simp_all
  finally have d: "\<bar>y - x\<bar> \<le> pow2 e / 2" by simp
  have "pow2 e = pow2 K * pow2 (- 52)" using pow2_add [of K "- 52"] e by simp
  also have "\<dots> \<le> \<bar>x\<bar> * pow2 (- 52)"
    using binade_bounds(1) [OF nz] pow2_positive [of "- 52"]
    by (intro mult_right_mono) (simp_all add: K_def)
  finally have "pow2 e / 2 \<le> \<bar>x\<bar> / 2" by (simp add: pow2_def)
  with d have "\<bar>x\<bar> / 2 \<le> \<bar>y\<bar>" by linarith
  with assms have "2 ^ 1024 \<le> \<bar>y\<bar>" by simp
  then show ?thesis
    using nz by (simp add: round64_def Let_def K_def [symmetric] e_def [symmetric] y_def [symmetric])
qed









text \<open>
  Rounding keeps a number that is neither huge nor tiny within twice its bounds; this
  is all that the finiteness of a rounded expression needs.
\<close>

lemma abs_withinE:
  assumes "abs_within B x"
  obtains a where "x = Fin a" and "\<bar>a\<bar> \<le> B"
  using assms by (cases x) simp_all

lemma in_rangeE:
  assumes "in_range L U x"
  obtains a where "x = Fin a" and "L \<le> a" and "a \<le> U"
  using assms by (cases x) simp_all

lemma abs_within_isFinite: "abs_within B x \<Longrightarrow> isFinite x"
  by (cases x) simp_all

lemma round64_within:
  assumes "\<bar>a\<bar> \<le> B" and "B \<le> 2 ^ 1023" and "2 * B + 1 \<le> C"
  shows "abs_within C (round64 a)"
proof -
  from assms(1,2) have "\<bar>a\<bar> \<le> 2 ^ 1023" by linarith
  from round64_error [OF this] obtain y where y: "round64 a = Fin y"
    and e: "\<bar>y - a\<bar> \<le> \<bar>a\<bar> / 2 ^ 53 + pow2 (- 1075)" by blast
  have "pow2 (- 1075) \<le> 1" by (simp add: pow2_def)
  moreover have "\<bar>a\<bar> / 2 ^ 53 \<le> \<bar>a\<bar>" by (simp add: field_simps)
  ultimately have "\<bar>y\<bar> \<le> 2 * \<bar>a\<bar> + 1" using e by linarith
  with assms(1,3) have "\<bar>y\<bar> \<le> C" by linarith
  with y show ?thesis by simp
qed

lemma round64_between:
  assumes "L \<le> a" and "a \<le> U" and "pow2 (- 1000) \<le> L" and "U \<le> 2 ^ 1023"
  shows "in_range (L / 2) (2 * U) (round64 a)"
proof -
  have p: "0 < pow2 (- 1000)" by (rule pow2_positive)
  with assms have a: "0 < a" "\<bar>a\<bar> = a" by linarith+
  from assms a have "\<bar>a\<bar> \<le> 2 ^ 1023" by linarith
  from round64_error [OF this] obtain y where y: "round64 a = Fin y"
    and e: "\<bar>y - a\<bar> \<le> \<bar>a\<bar> / 2 ^ 53 + pow2 (- 1075)" by blast
  have "pow2 (- 1075) \<le> pow2 (- 1000) / 4" by (simp add: pow2_def)
  with assms(1,3) have t: "pow2 (- 1075) \<le> a / 4" by linarith
  have "a / 2 ^ 53 \<le> a / 4" using a(1) by (simp add: field_simps)
  with e t a(2) have "\<bar>y - a\<bar> \<le> a / 2" by linarith
  then have "a / 2 \<le> y" "y \<le> 2 * a" using a(1) by linarith+
  with assms(1,2) have "L / 2 \<le> y" "y \<le> 2 * U" by linarith+
  with y show ?thesis by simp
qed

lemma fl_times_within:
  assumes "abs_within A x" and "abs_within B y" and "A * B \<le> 2 ^ 1023" and "2 * (A * B) + 1 \<le> C"
  shows "abs_within C (fl (x * y))"
proof -
  from assms(1) obtain a where a: "x = Fin a" "\<bar>a\<bar> \<le> A" by (rule abs_withinE)
  from assms(2) obtain b where b: "y = Fin b" "\<bar>b\<bar> \<le> B" by (rule abs_withinE)
  have "\<bar>a * b\<bar> = \<bar>a\<bar> * \<bar>b\<bar>" by (rule abs_mult)
  also have "\<dots> \<le> A * B" using a(2) b(2) by (intro mult_mono) simp_all
  finally have "abs_within C (round64 (a * b))" using assms(3,4) by (rule round64_within)
  then show ?thesis by (simp add: a b times_jsnum_def)
qed

lemma fl_plus_within:
  assumes "abs_within A x" and "abs_within B y" and "A + B \<le> 2 ^ 1023" and "2 * (A + B) + 1 \<le> C"
  shows "abs_within C (fl (x + y))"
proof -
  from assms(1) obtain a where a: "x = Fin a" "\<bar>a\<bar> \<le> A" by (rule abs_withinE)
  from assms(2) obtain b where b: "y = Fin b" "\<bar>b\<bar> \<le> B" by (rule abs_withinE)
  from a(2) b(2) have "\<bar>a + b\<bar> \<le> A + B" by linarith
  then have "abs_within C (round64 (a + b))" using assms(3,4) by (rule round64_within)
  then show ?thesis by (simp add: a b plus_jsnum_def)
qed

lemma fl_minus_within:
  assumes "abs_within A x" and "abs_within B y" and "A + B \<le> 2 ^ 1023" and "2 * (A + B) + 1 \<le> C"
  shows "abs_within C (fl (x - y))"
proof -
  from assms(1) obtain a where a: "x = Fin a" "\<bar>a\<bar> \<le> A" by (rule abs_withinE)
  from assms(2) obtain b where b: "y = Fin b" "\<bar>b\<bar> \<le> B" by (rule abs_withinE)
  from a(2) b(2) have "\<bar>a - b\<bar> \<le> A + B" by linarith
  then have "abs_within C (round64 (a - b))" using assms(3,4) by (rule round64_within)
  then show ?thesis by (simp add: a b minus_jsnum_def)
qed

lemma fl_times_between:
  assumes "in_range L1 U1 x" and "in_range L2 U2 y" and "0 < L1" and "0 < L2"
    and "pow2 (- 1000) \<le> L1 * L2" and "U1 * U2 \<le> 2 ^ 1023"
    and "L \<le> L1 * L2 / 2" and "2 * (U1 * U2) \<le> U"
  shows "in_range L U (fl (x * y))"
proof -
  from assms(1) obtain a where a: "x = Fin a" "L1 \<le> a" "a \<le> U1" by (rule in_rangeE)
  from assms(2) obtain b where b: "y = Fin b" "L2 \<le> b" "b \<le> U2" by (rule in_rangeE)
  have l: "L1 * L2 \<le> a * b" using a(2) b(2) assms(3,4) by (intro mult_mono) simp_all
  have u: "a * b \<le> U1 * U2" using a b assms(3,4) by (intro mult_mono) simp_all
  from round64_between [OF l u assms(5,6)] obtain c where c: "round64 (a * b) = Fin c"
    and "L1 * L2 / 2 \<le> c" and "c \<le> 2 * (U1 * U2)" by (rule in_rangeE)
  with assms(7,8) have "L \<le> c" "c \<le> U" by linarith+
  with c show ?thesis by (simp add: a b times_jsnum_def)
qed

lemma fl_inverse_within:
  assumes "in_range L U x" and "0 < L" and "1 / L \<le> 2 ^ 1023" and "2 * (1 / L) + 1 \<le> C"
  shows "abs_within C (fl (1 / x))"
proof -
  from assms(1) obtain a where a: "x = Fin a" "L \<le> a" "a \<le> U" by (rule in_rangeE)
  from a(2) assms(2) have p: "0 < a" "a \<noteq> 0" by linarith+
  have "1 / a \<le> 1 / L" using a(2) assms(2) by (simp add: frac_le)
  moreover have "0 < 1 / a" using p by simp
  ultimately have "\<bar>1 / a\<bar> \<le> 1 / L" by simp
  then have "abs_within C (round64 (1 / a))" using assms(3,4) by (rule round64_within)
  then show ?thesis using p by (simp add: a jsnum_ops)
qed

text \<open>A special value stays one through every operation that follows.\<close>

lemma fl_not_finite: "\<not> isFinite x \<Longrightarrow> \<not> isFinite (fl x)"
  by (cases x) simp_all

lemma plus_not_finite_left: "\<not> isFinite x \<Longrightarrow> \<not> isFinite (x + y)"
  by (cases x; cases y) (simp_all add: plus_jsnum_def)

lemma plus_not_finite_right: "\<not> isFinite y \<Longrightarrow> \<not> isFinite (x + y)"
  by (cases x; cases y) (simp_all add: plus_jsnum_def)

lemma minus_not_finite_right: "\<not> isFinite y \<Longrightarrow> \<not> isFinite (x - y)"
  by (cases x; cases y) (simp_all add: minus_jsnum_def)

lemma times_not_finite_left: "\<not> isFinite x \<Longrightarrow> \<not> isFinite (x * y)"
  by (cases x; cases y) (simp_all add: times_jsnum_def)

lemma fl_abs_within:
  assumes "abs_within B x" and "B \<le> 2 ^ 1023" and "2 * B + 1 \<le> C"
  shows "abs_within C (fl x)"
proof -
  from assms(1) obtain a where a: "x = Fin a" "\<bar>a\<bar> \<le> B" by (rule abs_withinE)
  from round64_within [OF a(2) assms(2,3)] show ?thesis by (simp add: a(1))
qed

subsection \<open>Error bounds\<close>

text \<open>
  \<open>approx E B x a\<close> says that the number \<open>x\<close> is finite and within \<open>E\<close> of
  the real \<open>a\<close>, which is at most \<open>B\<close> in absolute value; \<open>rel_approx \<rho> L U x a\<close> that it
  is within \<open>\<rho> * a\<close> of the real \<open>a\<close>, which lies in \<open>[L, U]\<close>; \<open>close_to E x a\<close> only that
  \<open>x\<close> is finite and within \<open>E\<close> of \<open>a\<close>. The unit roundoff \<open>2\<^sup>-\<^sup>5\<^sup>3\<close> is bounded by
  \<open>1.2 * 10\<^sup>-\<^sup>1\<^sup>6\<close>.
\<close>

fun approx :: "real \<Rightarrow> real \<Rightarrow> jsnum \<Rightarrow> real \<Rightarrow> bool" where
  "approx E B (Fin y) a = (\<bar>y - a\<bar> \<le> E \<and> \<bar>a\<bar> \<le> B)"
| "approx E B PInf a = False"
| "approx E B NInf a = False"
| "approx E B NaN a = False"

fun rel_approx :: "real \<Rightarrow> real \<Rightarrow> real \<Rightarrow> jsnum \<Rightarrow> real \<Rightarrow> bool" where
  "rel_approx \<rho> L U (Fin y) a = (\<bar>y - a\<bar> \<le> \<rho> * a \<and> L \<le> a \<and> a \<le> U)"
| "rel_approx \<rho> L U PInf a = False"
| "rel_approx \<rho> L U NInf a = False"
| "rel_approx \<rho> L U NaN a = False"

fun close_to :: "real \<Rightarrow> jsnum \<Rightarrow> real \<Rightarrow> bool" where
  "close_to E (Fin y) a = (\<bar>y - a\<bar> \<le> E)"
| "close_to E PInf a = False"
| "close_to E NInf a = False"
| "close_to E NaN a = False"

lemma approxE:
  assumes "approx E B x a"
  obtains y where "x = Fin y" and "\<bar>y - a\<bar> \<le> E" and "\<bar>a\<bar> \<le> B"
  using assms by (cases x) simp_all

lemma rel_approxE:
  assumes "rel_approx \<rho> L U x a"
  obtains y where "x = Fin y" and "\<bar>y - a\<bar> \<le> \<rho> * a" and "L \<le> a" and "a \<le> U"
  using assms by (cases x) simp_all

lemma unit_roundoff: "1 / 2 ^ 53 \<le> (12 / 10 ^ 17 :: real)" "pow2 (- 1075) \<le> 1 / 10 ^ 30"
  "(10 ^ 30 :: real) \<le> 2 ^ 1023"
  by (simp_all add: pow2_def)

lemma round64_abs:
  assumes "\<bar>y - a\<bar> \<le> e" and "\<bar>y\<bar> \<le> Y" and "\<bar>a\<bar> \<le> C" and "Y \<le> 10 ^ 30"
    and "e + Y * (12 / 10 ^ 17) + 1 / 10 ^ 30 \<le> E"
  shows "approx E C (round64 y) a"
proof -
  from assms(2,4) unit_roundoff(3) have "\<bar>y\<bar> \<le> 2 ^ 1023" by linarith
  from round64_error [OF this] obtain z where z: "round64 y = Fin z"
    and e: "\<bar>z - y\<bar> \<le> \<bar>y\<bar> / 2 ^ 53 + pow2 (- 1075)" by blast
  have "\<bar>y\<bar> / 2 ^ 53 = \<bar>y\<bar> * (1 / 2 ^ 53)" by simp
  also have "\<dots> \<le> Y * (12 / 10 ^ 17)"
    using assms(2) unit_roundoff(1) by (intro mult_mono) simp_all
  finally have "\<bar>z - y\<bar> \<le> Y * (12 / 10 ^ 17) + 1 / 10 ^ 30"
    using e unit_roundoff(2) by linarith
  with assms(1,5) have "\<bar>z - a\<bar> \<le> E" by linarith
  with z assms(3) show ?thesis by simp
qed

lemma approx_fl_times:
  assumes "approx e1 A x a" and "approx e2 B y b" and "A * B \<le> C"
    and "(A + e1) * (B + e2) \<le> 10 ^ 30"
    and "e1 * B + (A + e1) * e2 + (A + e1) * (B + e2) * (12 / 10 ^ 17) + 1 / 10 ^ 30 \<le> E"
  shows "approx E C (fl (x * y)) (a * b)"
proof -
  from assms(1) obtain x' where x: "x = Fin x'" "\<bar>x' - a\<bar> \<le> e1" "\<bar>a\<bar> \<le> A" by (rule approxE)
  from assms(2) obtain y' where y: "y = Fin y'" "\<bar>y' - b\<bar> \<le> e2" "\<bar>b\<bar> \<le> B" by (rule approxE)
  from x y have nn: "0 \<le> e1" "0 \<le> e2" "0 \<le> A" "0 \<le> B" by linarith+
  from x have xa: "\<bar>x'\<bar> \<le> A + e1" by linarith
  from y have yb: "\<bar>y'\<bar> \<le> B + e2" by linarith
  have "x' * y' - a * b = (x' - a) * b + x' * (y' - b)" by (simp add: algebra_simps)
  then have "\<bar>x' * y' - a * b\<bar> \<le> \<bar>x' - a\<bar> * \<bar>b\<bar> + \<bar>x'\<bar> * \<bar>y' - b\<bar>"
    using abs_triangle_ineq [of "(x' - a) * b" "x' * (y' - b)"] by (simp add: abs_mult)
  also have "\<dots> \<le> e1 * B + (A + e1) * e2"
    using x y xa nn by (intro add_mono mult_mono) simp_all
  finally have 1: "\<bar>x' * y' - a * b\<bar> \<le> e1 * B + (A + e1) * e2" .
  have "\<bar>x' * y'\<bar> = \<bar>x'\<bar> * \<bar>y'\<bar>" by (rule abs_mult)
  also have "\<dots> \<le> (A + e1) * (B + e2)" using xa yb nn by (intro mult_mono) simp_all
  finally have 2: "\<bar>x' * y'\<bar> \<le> (A + e1) * (B + e2)" .
  have "\<bar>a * b\<bar> = \<bar>a\<bar> * \<bar>b\<bar>" by (rule abs_mult)
  also have "\<dots> \<le> A * B" using x y nn by (intro mult_mono) simp_all
  finally have 3: "\<bar>a * b\<bar> \<le> C" using assms(3) by simp
  from assms(5) have 4: "(e1 * B + (A + e1) * e2) + (A + e1) * (B + e2) * (12 / 10 ^ 17) + 1 / 10 ^ 30 \<le> E"
    by simp
  from round64_abs [OF 1 2 3 assms(4) 4] show ?thesis by (simp add: x y times_jsnum_def)
qed

lemma approx_fl_plus:
  assumes "approx e1 A x a" and "approx e2 B y b" and "A + B \<le> C"
    and "A + e1 + (B + e2) \<le> 10 ^ 30"
    and "e1 + e2 + (A + e1 + (B + e2)) * (12 / 10 ^ 17) + 1 / 10 ^ 30 \<le> E"
  shows "approx E C (fl (x + y)) (a + b)"
proof -
  from assms(1) obtain x' where x: "x = Fin x'" "\<bar>x' - a\<bar> \<le> e1" "\<bar>a\<bar> \<le> A" by (rule approxE)
  from assms(2) obtain y' where y: "y = Fin y'" "\<bar>y' - b\<bar> \<le> e2" "\<bar>b\<bar> \<le> B" by (rule approxE)
  from x y have 1: "\<bar>x' + y' - (a + b)\<bar> \<le> e1 + e2" by linarith
  from x y have 2: "\<bar>x' + y'\<bar> \<le> A + e1 + (B + e2)" by linarith
  from x y assms(3) have 3: "\<bar>a + b\<bar> \<le> C" by linarith
  from round64_abs [OF 1 2 3 assms(4,5)] show ?thesis by (simp add: x y plus_jsnum_def)
qed

lemma approx_fl_minus:
  assumes "approx e1 A x a" and "approx e2 B y b" and "A + B \<le> C"
    and "A + e1 + (B + e2) \<le> 10 ^ 30"
    and "e1 + e2 + (A + e1 + (B + e2)) * (12 / 10 ^ 17) + 1 / 10 ^ 30 \<le> E"
  shows "approx E C (fl (x - y)) (a - b)"
proof -
  from assms(1) obtain x' where x: "x = Fin x'" "\<bar>x' - a\<bar> \<le> e1" "\<bar>a\<bar> \<le> A" by (rule approxE)
  from assms(2) obtain y' where y: "y = Fin y'" "\<bar>y' - b\<bar> \<le> e2" "\<bar>b\<bar> \<le> B" by (rule approxE)
  from x y have 1: "\<bar>x' - y' - (a - b)\<bar> \<le> e1 + e2" by linarith
  from x y have 2: "\<bar>x' - y'\<bar> \<le> A + e1 + (B + e2)" by linarith
  from x y assms(3) have 3: "\<bar>a - b\<bar> \<le> C" by linarith
  from round64_abs [OF 1 2 3 assms(4,5)] show ?thesis by (simp add: x y minus_jsnum_def)
qed

text \<open>Relative errors, for the positive quantities.\<close>

lemma round64_rel:
  assumes "\<bar>y - a\<bar> \<le> \<rho> * a" and "L \<le> a" and "a \<le> U" and "\<rho> \<le> 1 / 2"
    and "1 / 10 ^ 30 \<le> L" and "U \<le> 10 ^ 30"
    and "\<rho> + (1 + \<rho>) * (12 / 10 ^ 17) \<le> \<rho>'"
  shows "rel_approx \<rho>' L U (round64 y) a"
proof -
  from assms(2,5) have a: "0 < a" "1 / 10 ^ 30 \<le> a"
    using less_le_trans [of 0 "1 / 10 ^ 30" a] by simp_all
  from assms(1) have "0 \<le> \<rho> * a"
    using abs_ge_zero [of "y - a"] by linarith
  with a(1) have r: "0 \<le> \<rho>" by (simp add: zero_le_mult_iff)
  have ra: "\<rho> * a \<le> a / 2" using assms(4) a(1) by (simp add: field_simps)
  with assms(1) have y: "a / 2 \<le> y" "y \<le> a + \<rho> * a" by linarith+
  with a have yp: "0 < y" "\<bar>y\<bar> = y" by linarith+
  have "a + \<rho> * a \<le> 2 * a" using ra a by linarith
  with y assms(3,6) have "y \<le> 2 * 10 ^ 30" by linarith
  moreover have "(2 * 10 ^ 30 :: real) \<le> 2 ^ 1023" by simp
  ultimately have "\<bar>y\<bar> \<le> 2 ^ 1023" using yp by linarith
  from round64_error [OF this] obtain z where z: "round64 y = Fin z"
    and e: "\<bar>z - y\<bar> \<le> \<bar>y\<bar> / 2 ^ 53 + pow2 (- 1075)" by blast
  have "pow2 (- 1075) \<le> (1 / 10 ^ 30 / 2) * (1 / 10 ^ 20)" by (simp add: pow2_def)
  also have "\<dots> \<le> y * (1 / 10 ^ 20)" using y(1) a(2) by (intro mult_right_mono) simp_all
  finally have "\<bar>z - y\<bar> \<le> y * (1 / 2 ^ 53 + 1 / 10 ^ 20)"
    using e yp by (simp add: algebra_simps)
  also have "\<dots> \<le> y * (12 / 10 ^ 17)" using yp by (intro mult_left_mono) simp_all
  also have "\<dots> \<le> (a + \<rho> * a) * (12 / 10 ^ 17)" using y(2) by (intro mult_right_mono) simp_all
  finally have "\<bar>z - y\<bar> \<le> (a + \<rho> * a) * (12 / 10 ^ 17)" .
  with assms(1) have "\<bar>z - a\<bar> \<le> \<rho> * a + (a + \<rho> * a) * (12 / 10 ^ 17)" by linarith
  also have "\<dots> = (\<rho> + (1 + \<rho>) * (12 / 10 ^ 17)) * a" by (simp add: algebra_simps)
  also have "\<dots> \<le> \<rho>' * a" using assms(7) a(1) by (intro mult_right_mono) simp_all
  finally show ?thesis using z assms(2,3) by simp
qed

lemma rel_approx_nonneg:
  fixes a :: real
  assumes "\<bar>y - a\<bar> \<le> \<rho> * a" and "0 < a"
  shows "0 \<le> \<rho>"
proof -
  from assms(1) have "0 \<le> \<rho> * a" using abs_ge_zero [of "y - a"] by linarith
  with assms(2) show ?thesis by (simp add: zero_le_mult_iff)
qed

lemma rel_fl_times:
  assumes "rel_approx \<rho>1 L1 U1 x a" and "rel_approx \<rho>2 L2 U2 y b" and "0 < L1" and "0 < L2"
    and "\<rho>1 \<le> 1 / 10" and "\<rho>2 \<le> 1 / 10"
    and "L \<le> L1 * L2" and "U1 * U2 \<le> U" and "1 / 10 ^ 30 \<le> L" and "U \<le> 10 ^ 30"
    and "\<rho>1 + \<rho>2 + \<rho>1 * \<rho>2 + (1 + (\<rho>1 + \<rho>2 + \<rho>1 * \<rho>2)) * (12 / 10 ^ 17) \<le> \<rho>'"
  shows "rel_approx \<rho>' L U (fl (x * y)) (a * b)"
proof -
  from assms(1) obtain x' where x: "x = Fin x'" "\<bar>x' - a\<bar> \<le> \<rho>1 * a" "L1 \<le> a" "a \<le> U1"
    by (rule rel_approxE)
  from assms(2) obtain y' where y: "y = Fin y'" "\<bar>y' - b\<bar> \<le> \<rho>2 * b" "L2 \<le> b" "b \<le> U2"
    by (rule rel_approxE)
  from x y assms(3,4) have p: "0 < a" "0 < b" by linarith+
  have r: "0 \<le> \<rho>1" "0 \<le> \<rho>2"
    using rel_approx_nonneg [OF x(2) p(1)] rel_approx_nonneg [OF y(2) p(2)] by simp_all
  from x(2) p have xa: "\<bar>x'\<bar> \<le> a + \<rho>1 * a" by linarith
  have "x' * y' - a * b = (x' - a) * b + x' * (y' - b)" by (simp add: algebra_simps)
  then have "\<bar>x' * y' - a * b\<bar> \<le> \<bar>x' - a\<bar> * \<bar>b\<bar> + \<bar>x'\<bar> * \<bar>y' - b\<bar>"
    using abs_triangle_ineq [of "(x' - a) * b" "x' * (y' - b)"] by (simp add: abs_mult)
  also have "\<dots> \<le> (\<rho>1 * a) * b + (a + \<rho>1 * a) * (\<rho>2 * b)"
    using x(2) y(2) xa p r by (intro add_mono mult_mono) simp_all
  also have "\<dots> = (\<rho>1 + \<rho>2 + \<rho>1 * \<rho>2) * (a * b)" by (simp add: algebra_simps)
  finally have 1: "\<bar>x' * y' - a * b\<bar> \<le> (\<rho>1 + \<rho>2 + \<rho>1 * \<rho>2) * (a * b)" .
  have "L1 * L2 \<le> a * b" using x(3) y(3) assms(3,4) by (intro mult_mono) simp_all
  with assms(7) have 2: "L \<le> a * b" by linarith
  have "a * b \<le> U1 * U2" using x(3,4) y(3,4) assms(3,4) by (intro mult_mono) simp_all
  with assms(8) have 3: "a * b \<le> U" by linarith
  have "\<rho>1 * \<rho>2 \<le> (1 / 10) * (1 / 10)" using assms(5,6) r by (intro mult_mono) simp_all
  with assms(5,6) have 4: "\<rho>1 + \<rho>2 + \<rho>1 * \<rho>2 \<le> 1 / 2" by simp
  from round64_rel [OF 1 2 3 4 assms(9,10,11)] show ?thesis
    by (simp add: x y times_jsnum_def)
qed

lemma rel_fl_inverse:
  assumes "rel_approx \<rho> L0 U0 x a" and "0 < L0" and "\<rho> \<le> 1 / 4"
    and "L \<le> 1 / U0" and "1 / L0 \<le> U" and "1 / 10 ^ 30 \<le> L" and "U \<le> 10 ^ 30"
    and "2 * \<rho> + (1 + 2 * \<rho>) * (12 / 10 ^ 17) \<le> \<rho>'"
  shows "rel_approx \<rho>' L U (fl (1 / x)) (1 / a)"
proof -
  from assms(1) obtain x' where x: "x = Fin x'" "\<bar>x' - a\<bar> \<le> \<rho> * a" "L0 \<le> a" "a \<le> U0"
    by (rule rel_approxE)
  from x assms(2) have p: "0 < a" by linarith
  have r: "0 \<le> \<rho>" using rel_approx_nonneg [OF x(2) p] .
  have "\<rho> * a \<le> a / 2" using assms(3) p by (simp add: field_simps)
  with x(2) have h: "a / 2 \<le> x'" by linarith
  with p have xp: "0 < x'" "x' \<noteq> 0" by linarith+
  have "1 / x' - 1 / a = (a - x') / (x' * a)" using xp p by (simp add: field_simps)
  then have "\<bar>1 / x' - 1 / a\<bar> = \<bar>a - x'\<bar> / (x' * a)"
    using xp p by (simp add: abs_divide abs_mult)
  also have "\<dots> \<le> (\<rho> * a) / (x' * a)"
    using x(2) xp p by (intro divide_right_mono) simp_all
  also have "\<dots> = \<rho> / x'" using p by simp
  also have "\<dots> \<le> \<rho> / (a / 2)" using h p r by (intro divide_left_mono) simp_all
  also have "\<dots> = (2 * \<rho>) * (1 / a)" by simp
  finally have 1: "\<bar>1 / x' - 1 / a\<bar> \<le> (2 * \<rho>) * (1 / a)" .
  have "1 / U0 \<le> 1 / a" using x(4) p by (simp add: frac_le)
  with assms(4) have 2: "L \<le> 1 / a" by linarith
  have "1 / a \<le> 1 / L0" using x(3) assms(2) by (simp add: frac_le)
  with assms(5) have 3: "1 / a \<le> U" by linarith
  from assms(3) have 4: "2 * \<rho> \<le> 1 / 2" by simp
  from round64_rel [OF 1 2 3 4 assms(6,7,8)] show ?thesis
    using xp by (simp add: x jsnum_ops)
qed

lemma rel_approx_approx:
  assumes "rel_approx \<rho> L U x a" and "0 < L" and "\<rho> * U \<le> E" and "U \<le> B"
  shows "approx E B x a"
proof -
  from assms(1) obtain x' where x: "x = Fin x'" "\<bar>x' - a\<bar> \<le> \<rho> * a" "L \<le> a" "a \<le> U"
    by (rule rel_approxE)
  from x assms(2) have p: "0 < a" by linarith
  have r: "0 \<le> \<rho>" using rel_approx_nonneg [OF x(2) p] .
  have "\<rho> * a \<le> \<rho> * U" using x(4) r by (intro mult_left_mono) simp_all
  with x(2) assms(3) have "\<bar>x' - a\<bar> \<le> E" by linarith
  moreover from p x(4) assms(4) have "\<bar>a\<bar> \<le> B" by linarith
  ultimately show ?thesis by (simp add: x)
qed

lemma fl_approx:
  assumes "\<bar>a\<bar> \<le> B" and "B \<le> 10 ^ 30" and "B * (12 / 10 ^ 17) + 1 / 10 ^ 30 \<le> E"
  shows "approx E B (fl (Fin a)) a"
proof -
  have 1: "\<bar>a - a\<bar> \<le> 0" by simp
  from assms(3) have 2: "0 + B * (12 / 10 ^ 17) + 1 / 10 ^ 30 \<le> E" by simp
  from round64_abs [OF 1 assms(1) assms(1) assms(2) 2] show ?thesis by simp
qed

lemma approx_close_to: "approx E B x a \<Longrightarrow> E \<le> E' \<Longrightarrow> close_to E' x a"
  by (cases x) simp_all

lemma close_to_approx: "close_to E x a \<Longrightarrow> \<bar>a\<bar> \<le> B \<Longrightarrow> approx E B x a"
  by (cases x) simp_all





section \<open>The seeded generator\<close>

text \<open>
  \<open>s = (s * 1664525 + 1013904223) & 0xffffffff; return (s >>> 0) / 4294967296\<close>.
  The operator \<open>&\<close> converts both operands to signed 32-bit integers, \<open>>>> 0\<close> converts
  to an unsigned one. The state \<open>s\<close> of the closure is an integer: the seed is an
  integer, and from the first call on \<open>s\<close> is a signed 32-bit value, for which the
  product and the sum stay below \<open>2 ^ 53\<close> (lemma \<open>lcg_exact\<close>).
\<close>

definition ToInt32 :: "int \<Rightarrow> int" where
  "ToInt32 v = (v + 2 ^ 31) mod 2 ^ 32 - 2 ^ 31"

definition ToUint32 :: "int \<Rightarrow> int" where
  "ToUint32 v = v mod 2 ^ 32"

definition bitand32 :: "int \<Rightarrow> int \<Rightarrow> int" where
  "bitand32 a b = ToInt32 a AND ToInt32 b"

type_synonym rng = int

definition seededRNG :: "int \<Rightarrow> rng" where
  "seededRNG s0 = s0"

definition rng_call :: "rng \<Rightarrow> jsnum \<times> rng" where
  "rng_call s =
     (let s' = bitand32 (s * 1664525 + 1013904223) 4294967295
      in (NumI (ToUint32 s') / 4294967296, s'))"

lemma bitand32_mask: "bitand32 a 4294967295 = ToInt32 a"
  by (simp add: bitand32_def ToInt32_def)

text \<open>
  For a signed 32-bit state the product and the sum of the generator are integers
  below \<open>2 ^ 53\<close> in absolute value, which a double holds exactly.
\<close>

lemma lcg_exact:
  assumes "- (2 ^ 31) \<le> s" and "s < 2 ^ 31"
  shows "\<bar>s * 1664525\<bar> < 2 ^ 53 \<and> \<bar>s * 1664525 + 1013904223\<bar> < (2 ^ 53 :: int)"
  using assms by (simp add: abs_if)

lemma ToInt32_range: "- (2 ^ 31) \<le> ToInt32 v \<and> ToInt32 v < 2 ^ 31"
proof -
  have "0 \<le> (v + 2 ^ 31) mod 2 ^ 32" "(v + 2 ^ 31) mod 2 ^ 32 < (2 ^ 32 :: int)"
    by simp_all
  then show ?thesis by (simp add: ToInt32_def)
qed

lemma rng_call_state_range: "- (2 ^ 31) \<le> snd (rng_call s) \<and> snd (rng_call s) < 2 ^ 31"
  using ToInt32_range [of "s * 1664525 + 1013904223"]
  by (simp add: rng_call_def bitand32_mask Let_def)

text \<open>Every draw is a finite number in \<open>[0, 1)\<close>, of the form \<open>k / 2 ^ 32\<close>.\<close>

lemma rng_call_value:
  "\<exists>k. 0 \<le> k \<and> k < 2 ^ 32 \<and> fst (rng_call s) = Fin (real_of_int k / 4294967296)"
proof -
  define k where "k = ToUint32 (bitand32 (s * 1664525 + 1013904223) 4294967295)"
  have "0 \<le> k" "k < 2 ^ 32"
    by (simp_all add: k_def ToUint32_def)
  moreover have "fst (rng_call s) = Fin (real_of_int k / 4294967296)"
    by (simp add: rng_call_def Let_def k_def jsnum_lit)
  ultimately show ?thesis by blast
qed

section \<open>The synthetic data and the log-posterior\<close>

definition SEED_DATA :: int where "SEED_DATA = 42"
definition N_OBS :: nat where "N_OBS = 80"
definition TRUE_MU :: jsnum where "TRUE_MU = 1.1"
definition TRUE_SIG :: jsnum where "TRUE_SIG = 0.6"

function genData_loop :: "nat \<Rightarrow> nat \<Rightarrow> rng \<Rightarrow> jsnum list \<Rightarrow> jsnum list" where
  "genData_loop i n s normals =
     (if i < n then
        (let (u1, s1) = rng_call s;
             (u2, s2) = rng_call s1;
             z0 = Math_sqrt (- 2 * Math_log (u1 + 0.000000000001)) * Math_cos (2 * Math_PI * u2);
             z1 = Math_sqrt (- 2 * Math_log (u1 + 0.000000000001)) * Math_sin (2 * Math_PI * u2)
         in genData_loop (i + 2) n s2 (normals @ [z0, z1]))
      else normals)"
  by pat_completeness auto
termination
  by (relation "measure (\<lambda>(i, n, s, normals). n - i)") auto

declare genData_loop.simps [simp del]

definition genData :: "int \<Rightarrow> nat \<Rightarrow> jsnum \<Rightarrow> jsnum \<Rightarrow> jsnum list" where
  "genData s0 n mu sig =
     map (\<lambda>z. Math_exp (mu + sig * z)) (take n (genData_loop 0 n s0 []))"

definition DATA :: "jsnum list" where
  "DATA = genData SEED_DATA N_OBS TRUE_MU TRUE_SIG"

definition SUM_LOG_X :: jsnum where
  "SUM_LOG_X = foldl (\<lambda>s x. s + Math_log x) 0 DATA"

definition SUM_LOG_X_SQ :: jsnum where
  "SUM_LOG_X_SQ = foldl (\<lambda>s x. s + Math_log x ^ 2) 0 DATA"

definition TARGET_LOG_PROB :: "jsnum \<Rightarrow> jsnum \<Rightarrow> jsnum" where
  "TARGET_LOG_PROB mu sig =
     (if sig \<le> 0 then NInf
      else
        (let sig2 = sig * sig;
             logLik = - Num N_OBS * Math_log sig
               - (1 / (2 * sig2)) * (SUM_LOG_X_SQ - 2 * mu * SUM_LOG_X + Num N_OBS * mu * mu);
             logPriorMu = - 0.5 * mu * mu;
             logPriorSig = - 0.5 * sig * sig
         in logLik + logPriorMu + logPriorSig))"

subsection \<open>The data are finite and positive\<close>

text \<open>The value of a finite number; only used for numbers shown to be finite.\<close>

fun real_of :: "jsnum \<Rightarrow> real" where
  "real_of (Fin a) = a"
| "real_of _ = 0"

definition positive_finite :: "jsnum \<Rightarrow> bool" where
  "positive_finite v \<longleftrightarrow> isFinite v \<and> 0 < real_of v"

text \<open>The logarithms of the observations, and the log-likelihood of the model
  \<open>log x\<^sub>i ~ Normal(m, s)\<close> for them, up to terms that do not depend on \<open>(m, s)\<close>.\<close>

definition log_data :: "real list" where
  "log_data = map (\<lambda>v. ln (real_of v)) DATA"

definition lognormal_log_likelihood :: "real list \<Rightarrow> real \<Rightarrow> real \<Rightarrow> real" where
  "lognormal_log_likelihood ls m s =
     - real (length ls) * ln s - (\<Sum>l\<leftarrow>ls. (l - m)\<^sup>2) / (2 * s\<^sup>2)"

lemma isFinite_iff: "isFinite v \<longleftrightarrow> (\<exists>a. v = Fin a)"
  by (cases v) simp_all

lemma rng_call_finite:
  obtains a where "fst (rng_call s) = Fin a" and "0 \<le> a" and "a + 1 / 10 ^ 12 < 1"
proof -
  from rng_call_value [of s] obtain k where k: "0 \<le> k" "k < 2 ^ 32"
    and v: "fst (rng_call s) = Fin (real_of_int k / 4294967296)"
    by blast
  from k(2) have "k \<le> 4294967295" by simp
  then have "real_of_int k \<le> 4294967295" by linarith
  then have "real_of_int k / 4294967296 + 1 / 10 ^ 12 < 1" by simp
  moreover from k(1) have "0 \<le> real_of_int k / 4294967296" by simp
  ultimately show ?thesis using v that by blast
qed

lemma box_muller_finite:
  assumes "0 \<le> a" and "a + 1 / 10 ^ 12 < 1"
  shows "isFinite (Math_sqrt (- 2 * Math_log (Fin a + 0.000000000001)) * Math_cos (2 * Math_PI * Fin b))"
    and "isFinite (Math_sqrt (- 2 * Math_log (Fin a + 0.000000000001)) * Math_sin (2 * Math_PI * Fin b))"
proof -
  from assms have p: "0 < a + 1 / 10 ^ 12" by simp
  with assms(2) have "ln (a + 1 / 10 ^ 12) < 0" by simp
  then have n: "\<not> 0 < ln (a + 1 / 10 ^ 12)" by simp
  from p have q: "\<not> a + 1 / 10 ^ 12 < 0" "a + 1 / 10 ^ 12 \<noteq> 0" by simp_all
  have l: "Math_sqrt (- 2 * Math_log (Fin a + 0.000000000001)) = Fin (sqrt (- 2 * ln (a + 1 / 10 ^ 12)))"
    using q n by (simp add: jsnum_lit)
  show "isFinite (Math_sqrt (- 2 * Math_log (Fin a + 0.000000000001)) * Math_cos (2 * Math_PI * Fin b))"
    by (simp add: l) (simp add: jsnum_lit Math_PI_def)
  show "isFinite (Math_sqrt (- 2 * Math_log (Fin a + 0.000000000001)) * Math_sin (2 * Math_PI * Fin b))"
    by (simp add: l) (simp add: jsnum_lit Math_PI_def)
qed

lemma genData_loop_finite:
  "list_all isFinite normals \<Longrightarrow> list_all isFinite (genData_loop i n s normals)"
proof (induction i n s normals rule: genData_loop.induct)
  case (1 i n s normals)
  show ?case
  proof (cases "i < n")
    case False
    with 1(2) show ?thesis by (subst genData_loop.simps) simp
  next
    case True
    obtain u1 s1 where r1: "rng_call s = (u1, s1)" by (metis surj_pair)
    obtain u2 s2 where r2: "rng_call s1 = (u2, s2)" by (metis surj_pair)
    from rng_call_finite [of s] r1 obtain a where a: "u1 = Fin a" "0 \<le> a" "a + 1 / 10 ^ 12 < 1"
      by (metis fst_conv)
    from rng_call_finite [of s1] r2 obtain b where b: "u2 = Fin b"
      by (metis fst_conv)
    define z0 where "z0 = Math_sqrt (- 2 * Math_log (u1 + 0.000000000001)) * Math_cos (2 * Math_PI * u2)"
    define z1 where "z1 = Math_sqrt (- 2 * Math_log (u1 + 0.000000000001)) * Math_sin (2 * Math_PI * u2)"
    have f: "isFinite z0" "isFinite z1"
      using box_muller_finite [OF a(2,3), of b] by (simp_all add: z0_def z1_def a(1) b)
    have "list_all isFinite (genData_loop (i + 2) n s2 (normals @ [z0, z1]))"
      using True r1 r2 1(2) f
      by (intro 1(1) [of "(u1, s1)" u1 s1 "(u2, s2)" u2 s2 z0 z1])
        (simp_all add: z0_def z1_def)
    moreover have "genData_loop i n s normals = genData_loop (i + 2) n s2 (normals @ [z0, z1])"
      using True by (subst genData_loop.simps) (simp add: r1 r2 Let_def z0_def z1_def)
    ultimately show ?thesis by simp
  qed
qed

lemma genData_loop_length:
  "length (genData_loop i n s normals) = length normals + 2 * ((n - i + 1) div 2)"
proof (induction i n s normals rule: genData_loop.induct)
  case (1 i n s normals)
  show ?case
  proof (cases "i < n")
    case False
    then show ?thesis by (subst genData_loop.simps) simp
  next
    case True
    obtain u1 s1 where r1: "rng_call s = (u1, s1)" by (metis surj_pair)
    obtain u2 s2 where r2: "rng_call s1 = (u2, s2)" by (metis surj_pair)
    define z0 where "z0 = Math_sqrt (- 2 * Math_log (u1 + 0.000000000001)) * Math_cos (2 * Math_PI * u2)"
    define z1 where "z1 = Math_sqrt (- 2 * Math_log (u1 + 0.000000000001)) * Math_sin (2 * Math_PI * u2)"
    have "length (genData_loop (i + 2) n s2 (normals @ [z0, z1]))
        = length (normals @ [z0, z1]) + 2 * ((n - (i + 2) + 1) div 2)"
      using True r1 r2
      by (intro 1(1) [of "(u1, s1)" u1 s1 "(u2, s2)" u2 s2 z0 z1])
        (simp_all add: z0_def z1_def)
    moreover have "genData_loop i n s normals = genData_loop (i + 2) n s2 (normals @ [z0, z1])"
      using True by (subst genData_loop.simps) (simp add: r1 r2 Let_def z0_def z1_def)
    moreover from True have "2 + 2 * ((n - (i + 2) + 1) div 2) = 2 * ((n - i + 1) div 2)"
      by presburger
    ultimately show ?thesis by simp
  qed
qed

lemma genData_positive:
  "list_all positive_finite (genData s0 n (Fin m) (Fin sg))"
proof -
  have "list_all isFinite (take n (genData_loop 0 n s0 []))"
    using genData_loop_finite [of "[]" 0 n s0]
    by (auto simp add: list_all_iff dest: in_set_takeD)
  then show ?thesis
    by (auto simp add: genData_def list_all_iff isFinite_iff positive_finite_def jsnum_lit)
qed

lemma genData_length: "length (genData s0 n mu sig) = n"
proof -
  have "n \<le> 2 * ((n + 1) div 2)" by presburger
  then show ?thesis
    by (simp add: genData_def genData_loop_length)
qed

lemma DATA_positive: "list_all positive_finite DATA"
  using genData_positive [of SEED_DATA N_OBS "11/10" "6/10"]
  by (simp add: DATA_def TRUE_MU_def TRUE_SIG_def jsnum_lit)

lemma DATA_length: "length DATA = 80"
  by (simp add: DATA_def genData_length N_OBS_def)

lemma foldl_log_sum:
  assumes "list_all positive_finite xs"
  shows "foldl (\<lambda>s x. s + Math_log x) (Fin a) xs = Fin (a + (\<Sum>x\<leftarrow>xs. ln (real_of x)))"
  using assms
proof (induction xs arbitrary: a)
  case Nil
  show ?case by simp
next
  case (Cons x xs)
  from Cons.prems obtain b where b: "x = Fin b" "0 < b"
    by (auto simp add: positive_finite_def isFinite_iff)
  from Cons.prems have "list_all positive_finite xs" by simp
  from Cons.IH [OF this, of "a + ln b"] b show ?case
    by (simp add: jsnum_lit add.assoc)
qed

lemma foldl_log_sq_sum:
  assumes "list_all positive_finite xs"
  shows "foldl (\<lambda>s x. s + Math_log x ^ 2) (Fin a) xs = Fin (a + (\<Sum>x\<leftarrow>xs. (ln (real_of x))\<^sup>2))"
  using assms
proof (induction xs arbitrary: a)
  case Nil
  show ?case by simp
next
  case (Cons x xs)
  from Cons.prems obtain b where b: "x = Fin b" "0 < b"
    by (auto simp add: positive_finite_def isFinite_iff)
  from Cons.prems have "list_all positive_finite xs" by simp
  from Cons.IH [OF this, of "a + (ln b)\<^sup>2"] b show ?case
    by (simp add: jsnum_lit add.assoc)
qed

lemma SUM_LOG_X_eq: "SUM_LOG_X = Fin (sum_list log_data)"
  using foldl_log_sum [OF DATA_positive, of 0]
  by (simp add: SUM_LOG_X_def log_data_def zero_jsnum_def)

lemma SUM_LOG_X_SQ_eq: "SUM_LOG_X_SQ = Fin (\<Sum>l\<leftarrow>log_data. l\<^sup>2)"
  using foldl_log_sq_sum [OF DATA_positive, of 0]
  by (simp add: SUM_LOG_X_SQ_def log_data_def zero_jsnum_def comp_def)

lemma sum_of_squared_deviations:
  fixes m :: real
  shows "(\<Sum>l\<leftarrow>ls. (l - m)\<^sup>2) = (\<Sum>l\<leftarrow>ls. l\<^sup>2) - 2 * m * sum_list ls + real (length ls) * m * m"
  by (induction ls) (simp_all add: power2_eq_square algebra_simps)

lemma TARGET_LOG_PROB_infeasible: "sig \<le> 0 \<Longrightarrow> TARGET_LOG_PROB mu sig = NInf"
  by (simp add: TARGET_LOG_PROB_def)

lemma TARGET_LOG_PROB_finite:
  assumes "0 < s"
  shows "TARGET_LOG_PROB (Fin m) (Fin s)
     = Fin (lognormal_log_likelihood log_data m s + (- m\<^sup>2 / 2) + (- s\<^sup>2 / 2))"
proof -
  have len: "length log_data = 80"
    by (simp add: log_data_def DATA_length)
  from assms have s: "\<not> s \<le> 0" "\<not> s < 0" "s \<noteq> 0" "s * s \<noteq> 0" by simp_all
  have "TARGET_LOG_PROB (Fin m) (Fin s)
      = Fin (- 80 * ln s
             - 1 / (2 * (s * s)) * ((\<Sum>l\<leftarrow>log_data. l\<^sup>2) - 2 * m * sum_list log_data + 80 * m * m)
             + - (1 / 2) * m * m + - (1 / 2) * s * s)"
    using s
    by (simp add: TARGET_LOG_PROB_def Let_def SUM_LOG_X_eq SUM_LOG_X_SQ_eq N_OBS_def jsnum_lit)
  also have "- 80 * ln s
             - 1 / (2 * (s * s)) * ((\<Sum>l\<leftarrow>log_data. l\<^sup>2) - 2 * m * sum_list log_data + 80 * m * m)
             + - (1 / 2) * m * m + - (1 / 2) * s * s
      = lognormal_log_likelihood log_data m s + (- m\<^sup>2 / 2) + (- s\<^sup>2 / 2)"
    unfolding lognormal_log_likelihood_def sum_of_squared_deviations len
    by (simp add: power2_eq_square)
  finally show ?thesis .
qed

subsection \<open>The log-posterior in double arithmetic\<close>

text \<open>
  The body of \<open>TARGET_LOG_PROB\<close> once more, with the rounding \<open>r\<close> of every operation,
  with \<open>Math.log\<close> as \<open>lg\<close> and with the two cached sums as \<open>S1\<close> and \<open>S2\<close>.
\<close>

definition TARGET_LOG_PROB_in ::
    "(jsnum \<Rightarrow> jsnum) \<Rightarrow> (jsnum \<Rightarrow> jsnum) \<Rightarrow> jsnum \<Rightarrow> jsnum \<Rightarrow> jsnum \<Rightarrow> jsnum \<Rightarrow> jsnum" where
  "TARGET_LOG_PROB_in r lg S1 S2 mu sig =
     (if sig \<le> 0 then NInf
      else
        (let sig2 = r (sig * sig);
             logLik = r (r (- Num N_OBS * lg sig)
               - r (r (1 / r (2 * sig2)) * r (r (S2 - r (r (2 * mu) * S1)) + r (r (Num N_OBS * mu) * mu))));
             logPriorMu = r (r (- 0.5 * mu) * mu);
             logPriorSig = r (r (- 0.5 * sig) * sig)
         in r (r (logLik + logPriorMu) + logPriorSig)))"

lemma TARGET_LOG_PROB_exact:
  "TARGET_LOG_PROB_in (\<lambda>v. v) Math_log SUM_LOG_X SUM_LOG_X_SQ mu sig = TARGET_LOG_PROB mu sig"
  by (simp add: TARGET_LOG_PROB_in_def TARGET_LOG_PROB_def)

lemma TARGET_LOG_PROB_in_infeasible: "sig \<le> 0 \<Longrightarrow> TARGET_LOG_PROB_in r lg S1 S2 mu sig = NInf"
  by (simp add: TARGET_LOG_PROB_in_def)

lemma TARGET_LOG_PROB_in_bounded:
  assumes s: "1 / 10 ^ 50 \<le> s" "s \<le> 10 ^ 50" and m: "\<bar>m\<bar> \<le> 10 ^ 50"
    and lg: "abs_within 1000 (lg (Fin s))" and S1: "abs_within (10 ^ 6) S1" and S2: "abs_within (10 ^ 8) S2"
  shows "abs_within (10 ^ 220) (TARGET_LOG_PROB_in fl lg S1 S2 (Fin m) (Fin s))"
proof -
  from s have ns: "\<not> Fin s \<le> 0" by (simp add: jsnum_ops)
  from s have sb: "in_range (1 / 10 ^ 50) (10 ^ 50) (Fin s)" by simp
  from s have sw: "abs_within (10 ^ 50) (Fin s)" by simp
  from m have mw: "abs_within (10 ^ 50) (Fin m)" by simp
  have two: "abs_within 2 2" "in_range 2 2 2" by (simp_all add: jsnum_lit)
  have n: "abs_within 80 (Num N_OBS)" "abs_within 80 (- Num N_OBS)" by (simp_all add: jsnum_lit N_OBS_def)
  have h: "abs_within 1 (- 0.5)" by (simp add: jsnum_lit)
  let ?sig2 = "fl (Fin s * Fin s)"
  have t1: "in_range (1 / 10 ^ 101) (10 ^ 101) ?sig2"
    by (rule fl_times_between [OF sb sb]) (simp_all add: pow2_def)
  let ?t3 = "fl (2 * ?sig2)"
  have t3: "in_range (1 / 10 ^ 102) (10 ^ 103) ?t3"
    by (rule fl_times_between [OF two(2) t1]) (simp_all add: pow2_def)
  let ?t4 = "fl (1 / ?t3)"
  have t4: "abs_within (10 ^ 103) ?t4"
    by (rule fl_inverse_within [OF t3]) simp_all
  let ?t2 = "fl (- Num N_OBS * lg (Fin s))"
  have t2: "abs_within (10 ^ 6) ?t2"
    by (rule fl_times_within [OF n(2) lg]) simp_all
  let ?t5 = "fl (2 * Fin m)"
  have t5: "abs_within (10 ^ 51) ?t5"
    by (rule fl_times_within [OF two(1) mw]) simp_all
  let ?t6 = "fl (?t5 * S1)"
  have t6: "abs_within (10 ^ 58) ?t6"
    by (rule fl_times_within [OF t5 S1]) simp_all
  let ?t7 = "fl (S2 - ?t6)"
  have t7: "abs_within (10 ^ 59) ?t7"
    by (rule fl_minus_within [OF S2 t6]) simp_all
  let ?t8 = "fl (Num N_OBS * Fin m)"
  have t8: "abs_within (10 ^ 53) ?t8"
    by (rule fl_times_within [OF n(1) mw]) simp_all
  let ?t9 = "fl (?t8 * Fin m)"
  have t9: "abs_within (10 ^ 104) ?t9"
    by (rule fl_times_within [OF t8 mw]) simp_all
  let ?t10 = "fl (?t7 + ?t9)"
  have t10: "abs_within (10 ^ 105) ?t10"
    by (rule fl_plus_within [OF t7 t9]) simp_all
  let ?t11 = "fl (?t4 * ?t10)"
  have t11: "abs_within (10 ^ 209) ?t11"
    by (rule fl_times_within [OF t4 t10]) simp_all
  let ?logLik = "fl (?t2 - ?t11)"
  have t12: "abs_within (10 ^ 210) ?logLik"
    by (rule fl_minus_within [OF t2 t11]) simp_all
  let ?t13 = "fl (- 0.5 * Fin m)"
  have t13: "abs_within (10 ^ 51) ?t13"
    by (rule fl_times_within [OF h mw]) simp_all
  let ?logPriorMu = "fl (?t13 * Fin m)"
  have t14: "abs_within (10 ^ 102) ?logPriorMu"
    by (rule fl_times_within [OF t13 mw]) simp_all
  let ?t15 = "fl (- 0.5 * Fin s)"
  have t15: "abs_within (10 ^ 51) ?t15"
    by (rule fl_times_within [OF h sw]) simp_all
  let ?logPriorSig = "fl (?t15 * Fin s)"
  have t16: "abs_within (10 ^ 102) ?logPriorSig"
    by (rule fl_times_within [OF t15 sw]) simp_all
  let ?t17 = "fl (?logLik + ?logPriorMu)"
  have t17: "abs_within (10 ^ 211) ?t17"
    by (rule fl_plus_within [OF t12 t14]) simp_all
  have t18: "abs_within (10 ^ 220) (fl (?t17 + ?logPriorSig))"
    by (rule fl_plus_within [OF t17 t16]) simp_all
  show ?thesis
    unfolding TARGET_LOG_PROB_in_def Let_def if_not_P [OF ns] by (rule t18)
qed

text \<open>Where \<open>sigma * sigma\<close> underflows to 0 the quotient \<open>1 / (2 * sig2)\<close> is \<open>Infinity\<close>.\<close>

lemma TARGET_LOG_PROB_in_underflow:
  assumes "0 < s" and "s * s < pow2 (- 1075)"
  shows "\<not> isFinite (TARGET_LOG_PROB_in fl lg S1 S2 mu (Fin s))"
proof -
  from assms(1) have ns: "\<not> Fin s \<le> 0" by (simp add: jsnum_ops)
  from assms have "\<bar>s * s\<bar> < pow2 (- 1075)" by simp
  then have "round64 (s * s) = Fin 0" by (rule round64_underflow)
  then have z: "fl (Fin s * Fin s) = Fin 0" by (simp add: times_jsnum_def)
  have i: "fl (1 / fl (2 * fl (Fin s * Fin s))) = PInf"
    unfolding z by (simp add: jsnum_lit round64_def)
  have k: "\<not> isFinite (PInf * x)" for x by (rule times_not_finite_left) simp
  show ?thesis
    unfolding TARGET_LOG_PROB_in_def Let_def if_not_P [OF ns] i
    by (rule fl_not_finite, rule plus_not_finite_left, rule fl_not_finite,
        rule plus_not_finite_left, rule fl_not_finite, rule minus_not_finite_right,
        rule fl_not_finite, rule k)
qed

lemma TARGET_LOG_PROB_in_infinite_sigma:
  "\<not> isFinite (TARGET_LOG_PROB_in fl lg S1 S2 mu PInf)"
proof -
  have ns: "\<not> PInf \<le> (0 :: jsnum)" by (simp add: jsnum_ops)
  have "fl (fl (- 0.5 * PInf) * PInf) = NInf" by (simp add: jsnum_lit)
  then have k: "\<not> isFinite (fl (fl (- 0.5 * PInf) * PInf))" by simp
  show ?thesis
    unfolding TARGET_LOG_PROB_in_def Let_def if_not_P [OF ns]
    by (rule fl_not_finite, rule plus_not_finite_right, rule k)
qed

text \<open>
  Every standard normal draw is at most 15 in absolute value, since \<open>u1 + 10\<^sup>-\<^sup>1\<^sup>2\<close> is at
  least \<open>10\<^sup>-\<^sup>1\<^sup>2\<close>; hence every \<open>log x\<^sub>i\<close> is at most 11 and the cached sums are at most
  880 and 9680.
\<close>

lemma ln_10_le: "ln (10 :: real) \<le> 9"
  using ln_le_minus_one [of "10 :: real"] by simp

lemma ln_power_bounds:
  fixes x :: real
  assumes "0 < x"
  shows "ln (x ^ n) = real n * ln x" and "ln (1 / x ^ n) = - (real n * ln x)"
  using assms by (simp_all add: ln_div ln_realpow)

lemma box_muller_radius:
  assumes "0 \<le> a" and "a + 1 / 10 ^ 12 < 1"
  shows "0 \<le> sqrt (- 2 * ln (a + 1 / 10 ^ 12))" and "sqrt (- 2 * ln (a + 1 / 10 ^ 12)) \<le> 15"
proof -
  define t where "t = a + 1 / 10 ^ 12"
  from assms have t: "1 / 10 ^ 12 \<le> t" "0 < t" "t < 1" by (simp_all add: t_def)
  have "ln (1 / 10 ^ 12 :: real) = - (real 12 * ln 10)"
    by (rule ln_power_bounds) simp
  moreover have "ln (1 / 10 ^ 12) \<le> ln t" using t(1,2) by (subst ln_le_cancel_iff) simp_all
  ultimately have "- 108 \<le> ln t" using ln_10_le by linarith
  then have "- 2 * ln t \<le> 15\<^sup>2" by simp
  then have "sqrt (- 2 * ln t) \<le> 15" by (intro real_le_lsqrt) simp_all
  then show "sqrt (- 2 * ln (a + 1 / 10 ^ 12)) \<le> 15" by (simp add: t_def)
  from t have "ln t < 0" by simp
  then show "0 \<le> sqrt (- 2 * ln (a + 1 / 10 ^ 12))" by (simp add: t_def)
qed

lemma box_muller_bounded:
  assumes "0 \<le> a" and "a + 1 / 10 ^ 12 < 1"
  shows "abs_within 15 (Math_sqrt (- 2 * Math_log (Fin a + 0.000000000001)) * Math_cos (2 * Math_PI * Fin b))"
    and "abs_within 15 (Math_sqrt (- 2 * Math_log (Fin a + 0.000000000001)) * Math_sin (2 * Math_PI * Fin b))"
proof -
  from assms have p: "0 < a + 1 / 10 ^ 12" by simp
  with assms(2) have "ln (a + 1 / 10 ^ 12) < 0" by simp
  then have n: "\<not> 0 < ln (a + 1 / 10 ^ 12)" by simp
  from p have q: "\<not> a + 1 / 10 ^ 12 < 0" "a + 1 / 10 ^ 12 \<noteq> 0" by simp_all
  define R where "R = sqrt (- 2 * ln (a + 1 / 10 ^ 12))"
  have R: "0 \<le> R" "R \<le> 15" using box_muller_radius [OF assms] by (simp_all add: R_def)
  have l: "Math_sqrt (- 2 * Math_log (Fin a + 0.000000000001)) = Fin R"
    using q n by (simp add: jsnum_lit R_def)
  have c: "\<bar>R * cos x\<bar> \<le> 15" for x
  proof -
    have "\<bar>R * cos x\<bar> = R * \<bar>cos x\<bar>" using R(1) by (simp add: abs_mult)
    also have "\<dots> \<le> R * 1" using R(1) by (intro mult_left_mono) simp_all
    finally show ?thesis using R(2) by simp
  qed
  have d: "\<bar>R * sin x\<bar> \<le> 15" for x
  proof -
    have "\<bar>R * sin x\<bar> = R * \<bar>sin x\<bar>" using R(1) by (simp add: abs_mult)
    also have "\<dots> \<le> R * 1" using R(1) by (intro mult_left_mono) simp_all
    finally show ?thesis using R(2) by simp
  qed
  show "abs_within 15 (Math_sqrt (- 2 * Math_log (Fin a + 0.000000000001)) * Math_cos (2 * Math_PI * Fin b))"
    unfolding l using c by (simp add: jsnum_lit Math_PI_def)
  show "abs_within 15 (Math_sqrt (- 2 * Math_log (Fin a + 0.000000000001)) * Math_sin (2 * Math_PI * Fin b))"
    unfolding l using d by (simp add: jsnum_lit Math_PI_def)
qed

lemma genData_loop_bounded:
  "list_all (abs_within 15) normals \<Longrightarrow> list_all (abs_within 15) (genData_loop i n s normals)"
proof (induction i n s normals rule: genData_loop.induct)
  case (1 i n s normals)
  show ?case
  proof (cases "i < n")
    case False
    with 1(2) show ?thesis by (subst genData_loop.simps) simp
  next
    case True
    obtain u1 s1 where r1: "rng_call s = (u1, s1)" by (metis surj_pair)
    obtain u2 s2 where r2: "rng_call s1 = (u2, s2)" by (metis surj_pair)
    from rng_call_finite [of s] r1 obtain a where a: "u1 = Fin a" "0 \<le> a" "a + 1 / 10 ^ 12 < 1"
      by (metis fst_conv)
    from rng_call_finite [of s1] r2 obtain b where b: "u2 = Fin b"
      by (metis fst_conv)
    define z0 where "z0 = Math_sqrt (- 2 * Math_log (u1 + 0.000000000001)) * Math_cos (2 * Math_PI * u2)"
    define z1 where "z1 = Math_sqrt (- 2 * Math_log (u1 + 0.000000000001)) * Math_sin (2 * Math_PI * u2)"
    have f: "abs_within 15 z0" "abs_within 15 z1"
      using box_muller_bounded [OF a(2,3), of b] by (simp_all add: z0_def z1_def a(1) b)
    have "list_all (abs_within 15) (genData_loop (i + 2) n s2 (normals @ [z0, z1]))"
      using True r1 r2 1(2) f
      by (intro 1(1) [of "(u1, s1)" u1 s1 "(u2, s2)" u2 s2 z0 z1])
        (simp_all add: z0_def z1_def)
    moreover have "genData_loop i n s normals = genData_loop (i + 2) n s2 (normals @ [z0, z1])"
      using True by (subst genData_loop.simps) (simp add: r1 r2 Let_def z0_def z1_def)
    ultimately show ?thesis by simp
  qed
qed

lemma log_data_bounded: "\<forall>l\<in>set log_data. \<bar>l\<bar> \<le> 11"
proof
  fix l assume "l \<in> set log_data"
  then obtain z where z: "z \<in> set (take N_OBS (genData_loop 0 N_OBS SEED_DATA []))"
    and l: "l = ln (real_of (Math_exp (TRUE_MU + TRUE_SIG * z)))"
    by (auto simp add: log_data_def DATA_def genData_def)
  have "list_all (abs_within 15) (genData_loop 0 N_OBS SEED_DATA [])"
    by (rule genData_loop_bounded) simp
  with z have "abs_within 15 z"
    by (auto simp add: list_all_iff dest: in_set_takeD)
  then obtain c where c: "z = Fin c" "\<bar>c\<bar> \<le> 15" by (rule abs_withinE)
  have "l = 11 / 10 + 6 / 10 * c"
    by (simp add: l c(1) TRUE_MU_def TRUE_SIG_def jsnum_lit)
  with c(2) show "\<bar>l\<bar> \<le> 11" by linarith
qed

lemma sum_list_bounded:
  fixes ls :: "real list"
  assumes "\<forall>l\<in>set ls. \<bar>f l\<bar> \<le> B"
  shows "\<bar>\<Sum>l\<leftarrow>ls. f l\<bar> \<le> real (length ls) * B"
  using assms
proof (induction ls)
  case Nil
  show ?case by simp
next
  case (Cons l ls)
  then have "\<bar>f l\<bar> \<le> B" "\<bar>\<Sum>l\<leftarrow>ls. f l\<bar> \<le> real (length ls) * B" by simp_all
  then show ?case by (simp add: algebra_simps)
qed

lemma SUM_LOG_X_bounded: "abs_within 880 SUM_LOG_X"
proof -
  have "\<bar>\<Sum>l\<leftarrow>log_data. l\<bar> \<le> real (length log_data) * 11"
    using log_data_bounded by (intro sum_list_bounded) simp
  then show ?thesis by (simp add: SUM_LOG_X_eq log_data_def DATA_length)
qed

lemma SUM_LOG_X_SQ_bounded: "abs_within 9680 SUM_LOG_X_SQ"
proof -
  have "\<forall>l\<in>set log_data. \<bar>l\<^sup>2\<bar> \<le> 121"
  proof
    fix l assume "l \<in> set log_data"
    with log_data_bounded have "\<bar>l\<bar> \<le> 11" by blast
    then have "\<bar>l\<bar>\<^sup>2 \<le> 11\<^sup>2" by (intro power_mono) simp_all
    then show "\<bar>l\<^sup>2\<bar> \<le> 121" by simp
  qed
  then have "\<bar>\<Sum>l\<leftarrow>log_data. l\<^sup>2\<bar> \<le> real (length log_data) * 121"
    by (rule sum_list_bounded)
  then show ?thesis by (simp add: SUM_LOG_X_SQ_eq log_data_def DATA_length)
qed

text \<open>
  The function in double arithmetic. \<open>Math.log\<close> is taken as the rounded logarithm and
  the cached sums as the rounded sums of the data; the results below that use them hold
  for every logarithm and for all sums within the stated bounds.
\<close>

definition Math_log_double :: "jsnum \<Rightarrow> jsnum" where
  "Math_log_double v = fl (Math_log v)"

definition TARGET_LOG_PROB_double :: "jsnum \<Rightarrow> jsnum \<Rightarrow> jsnum" where
  "TARGET_LOG_PROB_double =
     TARGET_LOG_PROB_in fl Math_log_double (fl SUM_LOG_X) (fl SUM_LOG_X_SQ)"

lemma Math_log_double_bounded:
  assumes "1 / 10 ^ 50 \<le> s" and "s \<le> 10 ^ 50"
  shows "abs_within 1000 (Math_log_double (Fin s))"
proof -
  from assms(1) have p: "0 < s" "\<not> s < 0" "s \<noteq> 0"
    using less_le_trans [of 0 "1 / 10 ^ 50" s] by simp_all
  have u: "ln s \<le> ln (10 ^ 50)" using p(1) assms(2) by (subst ln_le_cancel_iff) simp_all
  have l: "ln (1 / 10 ^ 50) \<le> ln s" using p(1) assms(1) by (subst ln_le_cancel_iff) simp_all
  have "ln (10 ^ 50 :: real) = real 50 * ln 10" by (rule ln_power_bounds) simp
  moreover have "ln (1 / 10 ^ 50 :: real) = - (real 50 * ln 10)" by (rule ln_power_bounds) simp
  ultimately have "\<bar>ln s\<bar> \<le> 450" using u l ln_10_le by linarith
  then have "abs_within 450 (Math_log (Fin s))" using p by simp
  then show ?thesis
    unfolding Math_log_double_def by (rule fl_abs_within) simp_all
qed

lemma TARGET_LOG_PROB_double_finite:
  assumes "1 / 10 ^ 50 \<le> s" and "s \<le> 10 ^ 50" and "\<bar>m\<bar> \<le> 10 ^ 50"
  shows "isFinite (TARGET_LOG_PROB_double (Fin m) (Fin s))"
proof -
  have 1: "abs_within (10 ^ 6) (fl SUM_LOG_X)"
    by (rule fl_abs_within [OF SUM_LOG_X_bounded]) simp_all
  have 2: "abs_within (10 ^ 8) (fl SUM_LOG_X_SQ)"
    by (rule fl_abs_within [OF SUM_LOG_X_SQ_bounded]) simp_all
  from TARGET_LOG_PROB_in_bounded [of s m Math_log_double "fl SUM_LOG_X" "fl SUM_LOG_X_SQ",
      OF assms Math_log_double_bounded [OF assms(1,2)] 1 2]
  show ?thesis unfolding TARGET_LOG_PROB_double_def by (rule abs_within_isFinite)
qed

text \<open>
  The rounding errors of the 18 operations, for \<open>sigma\<close> in \<open>[0.05, 20]\<close> and \<open>\<bar>mu\<bar> \<le> 20\<close>,
  with a logarithm and cached sums that are within \<open>10\<^sup>-\<^sup>9\<close> of their exact values.
\<close>

lemma TARGET_LOG_PROB_in_accurate:
  assumes s: "1 / 20 \<le> s" "s \<le> 20" and m: "\<bar>m\<bar> \<le> 20"
    and lg: "approx (1 / 10 ^ 9) 19 (lg (Fin s)) l"
    and S1: "approx (1 / 10 ^ 9) 880 S1 cA" and S2: "approx (1 / 10 ^ 9) 9680 S2 cB"
  shows "approx (1 / 10 ^ 3) (10 ^ 8) (TARGET_LOG_PROB_in fl lg S1 S2 (Fin m) (Fin s))
     (- 80 * l - 1 / (2 * (s * s)) * (cB - 2 * m * cA + 80 * m * m)
        + - (1 / 2) * m * m + - (1 / 2) * s * s)"
proof -
  from s have ns: "\<not> Fin s \<le> 0" by (simp add: jsnum_ops)
  from s have sr: "rel_approx 0 (1 / 20) 20 (Fin s) s" by simp
  from s have sa: "approx 0 20 (Fin s) s" by simp
  from m have ma: "approx 0 20 (Fin m) m" by simp
  have two: "approx 0 2 2 2" "rel_approx 0 2 2 2 2" by (simp_all add: jsnum_lit)
  have n: "approx 0 80 (Num N_OBS) 80" "approx 0 80 (- Num N_OBS) (- 80)"
    by (simp_all add: jsnum_lit N_OBS_def)
  have h: "approx 0 1 (- 0.5) (- (1 / 2))" by (simp add: jsnum_lit)
  let ?sig2 = "fl (Fin s * Fin s)"
  have t1: "rel_approx (2 / 10 ^ 16) (1 / 400) 400 ?sig2 (s * s)"
    by (rule rel_fl_times [OF sr sr]) simp_all
  let ?t3 = "fl (2 * ?sig2)"
  have t3: "rel_approx (4 / 10 ^ 16) (1 / 200) 800 ?t3 (2 * (s * s))"
    by (rule rel_fl_times [OF two(2) t1]) simp_all
  let ?t4 = "fl (1 / ?t3)"
  have "rel_approx (1 / 10 ^ 15) (1 / 800) 200 ?t4 (1 / (2 * (s * s)))"
    by (rule rel_fl_inverse [OF t3]) simp_all
  then have t4: "approx (1 / 10 ^ 12) 200 ?t4 (1 / (2 * (s * s)))"
    by (rule rel_approx_approx) simp_all
  let ?t2 = "fl (- Num N_OBS * lg (Fin s))"
  have t2: "approx (1 / 10 ^ 7) 1520 ?t2 (- 80 * l)"
    by (rule approx_fl_times [OF n(2) lg]) simp_all
  let ?t5 = "fl (2 * Fin m)"
  have t5: "approx (1 / 10 ^ 14) 40 ?t5 (2 * m)"
    by (rule approx_fl_times [OF two(1) ma]) simp_all
  let ?t6 = "fl (?t5 * S1)"
  have t6: "approx (1 / 10 ^ 7) 35200 ?t6 (2 * m * cA)"
    by (rule approx_fl_times [OF t5 S1]) simp_all
  let ?t7 = "fl (S2 - ?t6)"
  have t7: "approx (2 / 10 ^ 7) 44880 ?t7 (cB - 2 * m * cA)"
    by (rule approx_fl_minus [OF S2 t6]) simp_all
  let ?t8 = "fl (Num N_OBS * Fin m)"
  have t8: "approx (1 / 10 ^ 12) 1600 ?t8 (80 * m)"
    by (rule approx_fl_times [OF n(1) ma]) simp_all
  let ?t9 = "fl (?t8 * Fin m)"
  have t9: "approx (1 / 10 ^ 10) 32000 ?t9 (80 * m * m)"
    by (rule approx_fl_times [OF t8 ma]) simp_all
  let ?t10 = "fl (?t7 + ?t9)"
  have t10: "approx (3 / 10 ^ 7) 76880 ?t10 (cB - 2 * m * cA + 80 * m * m)"
    by (rule approx_fl_plus [OF t7 t9]) simp_all
  let ?t11 = "fl (?t4 * ?t10)"
  have t11: "approx (1 / 10 ^ 4) 15376000 ?t11
      (1 / (2 * (s * s)) * (cB - 2 * m * cA + 80 * m * m))"
    by (rule approx_fl_times [OF t4 t10]) simp_all
  let ?logLik = "fl (?t2 - ?t11)"
  have t12: "approx (2 / 10 ^ 4) 15377520 ?logLik
      (- 80 * l - 1 / (2 * (s * s)) * (cB - 2 * m * cA + 80 * m * m))"
    by (rule approx_fl_minus [OF t2 t11]) simp_all
  let ?t13 = "fl (- 0.5 * Fin m)"
  have t13: "approx (1 / 10 ^ 14) 20 ?t13 (- (1 / 2) * m)"
    by (rule approx_fl_times [OF h ma]) simp_all
  let ?logPriorMu = "fl (?t13 * Fin m)"
  have t14: "approx (1 / 10 ^ 12) 400 ?logPriorMu (- (1 / 2) * m * m)"
    by (rule approx_fl_times [OF t13 ma]) simp_all
  let ?t15 = "fl (- 0.5 * Fin s)"
  have t15: "approx (1 / 10 ^ 14) 20 ?t15 (- (1 / 2) * s)"
    by (rule approx_fl_times [OF h sa]) simp_all
  let ?logPriorSig = "fl (?t15 * Fin s)"
  have t16: "approx (1 / 10 ^ 12) 400 ?logPriorSig (- (1 / 2) * s * s)"
    by (rule approx_fl_times [OF t15 sa]) simp_all
  let ?t17 = "fl (?logLik + ?logPriorMu)"
  have t17: "approx (3 / 10 ^ 4) 15377920 ?t17
      (- 80 * l - 1 / (2 * (s * s)) * (cB - 2 * m * cA + 80 * m * m) + - (1 / 2) * m * m)"
    by (rule approx_fl_plus [OF t12 t14]) simp_all
  have t18: "approx (1 / 10 ^ 3) (10 ^ 8) (fl (?t17 + ?logPriorSig))
      (- 80 * l - 1 / (2 * (s * s)) * (cB - 2 * m * cA + 80 * m * m)
        + - (1 / 2) * m * m + - (1 / 2) * s * s)"
    by (rule approx_fl_plus [OF t17 t16]) simp_all
  show ?thesis
    unfolding TARGET_LOG_PROB_in_def Let_def if_not_P [OF ns] by (rule t18)
qed

lemma log_posterior_formula:
  assumes "0 < s"
  shows "- 80 * ln s
      - 1 / (2 * (s * s)) * ((\<Sum>l\<leftarrow>log_data. l\<^sup>2) - 2 * m * sum_list log_data + 80 * m * m)
      + - (1 / 2) * m * m + - (1 / 2) * s * s
    = lognormal_log_likelihood log_data m s + (- m\<^sup>2 / 2) + (- s\<^sup>2 / 2)"
proof -
  have len: "length log_data = 80"
    by (simp add: log_data_def DATA_length)
  show ?thesis
    unfolding lognormal_log_likelihood_def sum_of_squared_deviations len
    by (simp add: power2_eq_square)
qed

lemma ln_20_bounds:
  fixes s :: real
  assumes "1 / 20 \<le> s" and "s \<le> 20"
  shows "\<bar>ln s\<bar> \<le> 19"
proof -
  from assms(1) have p: "0 < s" using less_le_trans [of 0 "1 / 20" s] by simp
  have u: "ln s \<le> ln 20" using p assms(2) by (subst ln_le_cancel_iff) simp_all
  have l: "ln (1 / 20) \<le> ln s" using p assms(1) by (subst ln_le_cancel_iff) simp_all
  have a: "ln (20 :: real) \<le> 19" using ln_le_minus_one [of "20 :: real"] by simp
  have "ln (1 / 20 :: real) = - ln 20" by (simp add: ln_div)
  with u l a show ?thesis by linarith
qed

lemma Math_log_double_accurate:
  assumes "1 / 20 \<le> s" and "s \<le> 20"
  shows "approx (1 / 10 ^ 9) 19 (Math_log_double (Fin s)) (ln s)"
proof -
  from assms(1) have p: "\<not> s < 0" "s \<noteq> 0"
    using less_le_trans [of 0 "1 / 20" s] by simp_all
  have "approx (1 / 10 ^ 9) 19 (fl (Fin (ln s))) (ln s)"
    using ln_20_bounds [OF assms] by (rule fl_approx) simp_all
  then show ?thesis using p by (simp add: Math_log_double_def)
qed

lemma cached_sums_accurate:
  "approx (1 / 10 ^ 9) 880 (fl SUM_LOG_X) (sum_list log_data)"
  "approx (1 / 10 ^ 9) 9680 (fl SUM_LOG_X_SQ) (\<Sum>l\<leftarrow>log_data. l\<^sup>2)"
proof -
  from SUM_LOG_X_bounded have "\<bar>sum_list log_data\<bar> \<le> 880" by (simp add: SUM_LOG_X_eq)
  then show "approx (1 / 10 ^ 9) 880 (fl SUM_LOG_X) (sum_list log_data)"
    unfolding SUM_LOG_X_eq by (rule fl_approx) simp_all
  from SUM_LOG_X_SQ_bounded have "\<bar>\<Sum>l\<leftarrow>log_data. l\<^sup>2\<bar> \<le> 9680" by (simp add: SUM_LOG_X_SQ_eq)
  then show "approx (1 / 10 ^ 9) 9680 (fl SUM_LOG_X_SQ) (\<Sum>l\<leftarrow>log_data. l\<^sup>2)"
    unfolding SUM_LOG_X_SQ_eq by (rule fl_approx) simp_all
qed

lemma TARGET_LOG_PROB_in_close:
  assumes "1 / 20 \<le> s" and "s \<le> 20" and "\<bar>m\<bar> \<le> 20"
    and "approx (1 / 10 ^ 9) 19 (lg (Fin s)) (ln s)"
    and "approx (1 / 10 ^ 9) 880 S1 (sum_list log_data)"
    and "approx (1 / 10 ^ 9) 9680 S2 (\<Sum>l\<leftarrow>log_data. l\<^sup>2)"
  shows "approx (1 / 10 ^ 3) (10 ^ 8) (TARGET_LOG_PROB_in fl lg S1 S2 (Fin m) (Fin s))
     (lognormal_log_likelihood log_data m s + (- m\<^sup>2 / 2) + (- s\<^sup>2 / 2))"
proof -
  from assms(1) have "0 < s" using less_le_trans [of 0 "1 / 20" s] by simp
  from TARGET_LOG_PROB_in_accurate
    [where s = s and lg = lg and l = "ln s" and cA = "sum_list log_data" and cB = "\<Sum>l\<leftarrow>log_data. l\<^sup>2", OF assms]
  show ?thesis
    unfolding log_posterior_formula [OF \<open>0 < s\<close>] .
qed

lemma TARGET_LOG_PROB_double_close:
  assumes "1 / 20 \<le> s" and "s \<le> 20" and "\<bar>m\<bar> \<le> 20"
  shows "approx (1 / 10 ^ 3) (10 ^ 8) (TARGET_LOG_PROB_double (Fin m) (Fin s))
     (lognormal_log_likelihood log_data m s + (- m\<^sup>2 / 2) + (- s\<^sup>2 / 2))"
  unfolding TARGET_LOG_PROB_double_def
  using assms Math_log_double_accurate [OF assms(1,2)] cached_sums_accurate
  by (rule TARGET_LOG_PROB_in_close)

text \<open>
  Claim C3, as stated: for every \<open>sigma > 0\<close> and finite \<open>mu\<close> the result is a finite real
  equal to the log-likelihood plus the log-priors. It fails for a positive \<open>sigma\<close> of
  extreme magnitude. At \<open>sigma = Infinity\<close> the result is \<open>-Infinity\<close>. At
  \<open>sigma = 2\<^sup>-\<^sup>6\<^sup>0\<^sup>0\<close>, a double, and \<open>mu = 1\<close> the product \<open>sig * sig\<close> underflows to 0,
  \<open>1 / (2 * sig2)\<close> is \<open>Infinity\<close> and the result is not finite.
\<close>

theorem TARGET_LOG_PROB_positive_sigma_counterexample:
  "(0 :: jsnum) < PInf \<and> isFinite (Fin 0) \<and>
   TARGET_LOG_PROB (Fin 0) PInf = NInf \<and> \<not> isFinite (TARGET_LOG_PROB_double (Fin 0) PInf) \<and>
   (0 :: jsnum) < Fin (1 / 2 ^ 600) \<and> isFinite (Fin 1) \<and>
   \<not> isFinite (TARGET_LOG_PROB_double (Fin 1) (Fin (1 / 2 ^ 600)))"
proof -
  have a: "TARGET_LOG_PROB (Fin 0) PInf = NInf"
    by (simp add: TARGET_LOG_PROB_def Let_def SUM_LOG_X_eq SUM_LOG_X_SQ_eq N_OBS_def jsnum_lit)
  have b: "\<not> isFinite (TARGET_LOG_PROB_double (Fin 0) PInf)"
    unfolding TARGET_LOG_PROB_double_def by (rule TARGET_LOG_PROB_in_infinite_sigma)
  have "(1 / 2 ^ 600 :: real) * (1 / 2 ^ 600) < pow2 (- 1075)"
    by (simp add: pow2_def)
  then have c: "\<not> isFinite (TARGET_LOG_PROB_double (Fin 1) (Fin (1 / 2 ^ 600)))"
    unfolding TARGET_LOG_PROB_double_def by (intro TARGET_LOG_PROB_in_underflow) simp_all
  from a b c show ?thesis by (simp add: jsnum_lit)
qed

text \<open>
  Claim C3, amended. \<open>TARGET_LOG_PROB\<close> returns \<open>-Infinity\<close> for every \<open>sigma \<le> 0\<close> and every
  \<open>mu\<close> (also \<open>NaN\<close> or infinite), whatever the rounding. In double arithmetic it returns
  a finite number for every \<open>sigma\<close> in \<open>[10\<^sup>-\<^sup>5\<^sup>0, 10\<^sup>5\<^sup>0]\<close> and every \<open>mu\<close> with
  \<open>\<bar>mu\<bar> \<le> 10\<^sup>5\<^sup>0\<close>: for every implementation of \<open>Math.log\<close> with
  \<open>\<bar>log sigma\<bar> \<le> 1000\<close> there and all cached sums with \<open>\<bar>S1\<bar> \<le> 10\<^sup>6\<close> and \<open>\<bar>S2\<bar> \<le> 10\<^sup>8\<close>,
  in particular for the rounded logarithm and the rounded sums of the data. For
  \<open>sigma\<close> in \<open>[0.05, 20]\<close> and \<open>\<bar>mu\<bar> \<le> 20\<close>, which covers the heat map, that number is within
  \<open>10\<^sup>-\<^sup>3\<close> of the LogNormal log-likelihood of the 80 observations plus the log-prior terms
  \<open>- mu\<^sup>2 / 2\<close> and \<open>- sigma\<^sup>2 / 2\<close>, whenever \<open>Math.log\<close> and the cached sums are within
  \<open>10\<^sup>-\<^sup>9\<close> of the logarithm and of the sums of the data, again in particular for the
  rounded ones. The expression it evaluates, read without rounding, is that
  log-likelihood plus those log-prior terms exactly, for every finite \<open>sigma > 0\<close> and
  finite \<open>mu\<close>. The cached sums are finite, the observations finite and positive. The
  function is total: no case raises.
\<close>

theorem TARGET_LOG_PROB_total:
  "(sig \<le> 0 \<longrightarrow> TARGET_LOG_PROB_in r lg S1 S2 mu sig = NInf) \<and>
   (1 / 10 ^ 50 \<le> s \<and> s \<le> 10 ^ 50 \<and> \<bar>m\<bar> \<le> 10 ^ 50 \<and>
    abs_within 1000 (lg (Fin s)) \<and> abs_within (10 ^ 6) S1 \<and> abs_within (10 ^ 8) S2 \<longrightarrow>
      isFinite (TARGET_LOG_PROB_in fl lg S1 S2 (Fin m) (Fin s))) \<and>
   (1 / 10 ^ 50 \<le> s \<and> s \<le> 10 ^ 50 \<and> \<bar>m\<bar> \<le> 10 ^ 50 \<longrightarrow>
      isFinite (TARGET_LOG_PROB_double (Fin m) (Fin s))) \<and>
   (1 / 20 \<le> s \<and> s \<le> 20 \<and> \<bar>m\<bar> \<le> 20 \<and>
    close_to (1 / 10 ^ 9) (lg (Fin s)) (ln s) \<and>
    close_to (1 / 10 ^ 9) S1 (real_of SUM_LOG_X) \<and>
    close_to (1 / 10 ^ 9) S2 (real_of SUM_LOG_X_SQ) \<longrightarrow>
      close_to (1 / 10 ^ 3) (TARGET_LOG_PROB_in fl lg S1 S2 (Fin m) (Fin s))
        (lognormal_log_likelihood log_data m s + (- m\<^sup>2 / 2) + (- s\<^sup>2 / 2))) \<and>
   (1 / 20 \<le> s \<and> s \<le> 20 \<and> \<bar>m\<bar> \<le> 20 \<longrightarrow>
      close_to (1 / 10 ^ 3) (TARGET_LOG_PROB_double (Fin m) (Fin s))
        (lognormal_log_likelihood log_data m s + (- m\<^sup>2 / 2) + (- s\<^sup>2 / 2))) \<and>
   (0 < s \<longrightarrow>
      TARGET_LOG_PROB_in (\<lambda>v. v) Math_log SUM_LOG_X SUM_LOG_X_SQ (Fin m) (Fin s)
        = Fin (lognormal_log_likelihood log_data m s + (- m\<^sup>2 / 2) + (- s\<^sup>2 / 2))) \<and>
   TARGET_LOG_PROB_in (\<lambda>v. v) Math_log SUM_LOG_X SUM_LOG_X_SQ mu sig = TARGET_LOG_PROB mu sig \<and>
   isFinite SUM_LOG_X \<and> isFinite SUM_LOG_X_SQ \<and>
   length DATA = 80 \<and> list_all positive_finite DATA"
proof (intro conjI impI)
  assume "sig \<le> 0"
  then show "TARGET_LOG_PROB_in r lg S1 S2 mu sig = NInf" by (rule TARGET_LOG_PROB_in_infeasible)
next
  assume h: "1 / 10 ^ 50 \<le> s \<and> s \<le> 10 ^ 50 \<and> \<bar>m\<bar> \<le> 10 ^ 50 \<and>
    abs_within 1000 (lg (Fin s)) \<and> abs_within (10 ^ 6) S1 \<and> abs_within (10 ^ 8) S2"
  then have "abs_within (10 ^ 220) (TARGET_LOG_PROB_in fl lg S1 S2 (Fin m) (Fin s))"
    by (intro TARGET_LOG_PROB_in_bounded) simp_all
  then show "isFinite (TARGET_LOG_PROB_in fl lg S1 S2 (Fin m) (Fin s))"
    by (rule abs_within_isFinite)
next
  assume "1 / 10 ^ 50 \<le> s \<and> s \<le> 10 ^ 50 \<and> \<bar>m\<bar> \<le> 10 ^ 50"
  then show "isFinite (TARGET_LOG_PROB_double (Fin m) (Fin s))"
    by (intro TARGET_LOG_PROB_double_finite) simp_all
next
  assume h: "1 / 20 \<le> s \<and> s \<le> 20 \<and> \<bar>m\<bar> \<le> 20 \<and>
    close_to (1 / 10 ^ 9) (lg (Fin s)) (ln s) \<and>
    close_to (1 / 10 ^ 9) S1 (real_of SUM_LOG_X) \<and>
    close_to (1 / 10 ^ 9) S2 (real_of SUM_LOG_X_SQ)"
  then have s: "1 / 20 \<le> s" "s \<le> 20" and m: "\<bar>m\<bar> \<le> 20" by simp_all
  from h have 1: "approx (1 / 10 ^ 9) 19 (lg (Fin s)) (ln s)"
    using ln_20_bounds [OF s] by (intro close_to_approx) simp_all
  from SUM_LOG_X_bounded have "\<bar>sum_list log_data\<bar> \<le> 880" by (simp add: SUM_LOG_X_eq)
  with h have 2: "approx (1 / 10 ^ 9) 880 S1 (sum_list log_data)"
    by (intro close_to_approx) (simp_all add: SUM_LOG_X_eq)
  from SUM_LOG_X_SQ_bounded have "\<bar>\<Sum>l\<leftarrow>log_data. l\<^sup>2\<bar> \<le> 9680" by (simp add: SUM_LOG_X_SQ_eq)
  with h have 3: "approx (1 / 10 ^ 9) 9680 S2 (\<Sum>l\<leftarrow>log_data. l\<^sup>2)"
    by (intro close_to_approx) (simp_all add: SUM_LOG_X_SQ_eq)
  from TARGET_LOG_PROB_in_close [where s = s and lg = lg, OF s m 1 2 3]
  show "close_to (1 / 10 ^ 3) (TARGET_LOG_PROB_in fl lg S1 S2 (Fin m) (Fin s))
        (lognormal_log_likelihood log_data m s + (- m\<^sup>2 / 2) + (- s\<^sup>2 / 2))"
    by (rule approx_close_to) simp
next
  assume "1 / 20 \<le> s \<and> s \<le> 20 \<and> \<bar>m\<bar> \<le> 20"
  then have "approx (1 / 10 ^ 3) (10 ^ 8) (TARGET_LOG_PROB_double (Fin m) (Fin s))
        (lognormal_log_likelihood log_data m s + (- m\<^sup>2 / 2) + (- s\<^sup>2 / 2))"
    by (intro TARGET_LOG_PROB_double_close) simp_all
  then show "close_to (1 / 10 ^ 3) (TARGET_LOG_PROB_double (Fin m) (Fin s))
        (lognormal_log_likelihood log_data m s + (- m\<^sup>2 / 2) + (- s\<^sup>2 / 2))"
    by (rule approx_close_to) simp
next
  assume "0 < s"
  then show "TARGET_LOG_PROB_in (\<lambda>v. v) Math_log SUM_LOG_X SUM_LOG_X_SQ (Fin m) (Fin s)
        = Fin (lognormal_log_likelihood log_data m s + (- m\<^sup>2 / 2) + (- s\<^sup>2 / 2))"
    unfolding TARGET_LOG_PROB_exact by (rule TARGET_LOG_PROB_finite)
next
  show "TARGET_LOG_PROB_in (\<lambda>v. v) Math_log SUM_LOG_X SUM_LOG_X_SQ mu sig = TARGET_LOG_PROB mu sig"
    by (rule TARGET_LOG_PROB_exact)
  show "isFinite SUM_LOG_X" by (simp add: SUM_LOG_X_eq)
  show "isFinite SUM_LOG_X_SQ" by (simp add: SUM_LOG_X_SQ_eq)
  show "length DATA = 80" by (rule DATA_length)
  show "list_all positive_finite DATA" by (rule DATA_positive)
qed

text \<open>
  At \<open>sigma = -1\<close> with \<open>mu = NaN\<close>, and at \<open>(mu, sigma) = (1, 0.6)\<close>, the starting state
  of the sampler, with the rounded logarithm and the rounded sums of the data.
\<close>

theorem TARGET_LOG_PROB_total_witness:
  "Fin (- 1) \<le> (0 :: jsnum) \<and> TARGET_LOG_PROB_double NaN (Fin (- 1)) = NInf \<and>
   (1 / 10 ^ 50 \<le> (6 / 10 :: real) \<and> (6 / 10 :: real) \<le> 10 ^ 50 \<and> \<bar>1 :: real\<bar> \<le> 10 ^ 50) \<and>
   abs_within 1000 (Math_log_double (Fin (6 / 10))) \<and>
   abs_within (10 ^ 6) (fl SUM_LOG_X) \<and> abs_within (10 ^ 8) (fl SUM_LOG_X_SQ) \<and>
   isFinite (TARGET_LOG_PROB_double (Fin 1) (Fin (6 / 10))) \<and>
   (1 / 20 \<le> (6 / 10 :: real) \<and> (6 / 10 :: real) \<le> 20 \<and> \<bar>1 :: real\<bar> \<le> 20) \<and>
   close_to (1 / 10 ^ 9) (Math_log_double (Fin (6 / 10))) (ln (6 / 10)) \<and>
   close_to (1 / 10 ^ 9) (fl SUM_LOG_X) (real_of SUM_LOG_X) \<and>
   close_to (1 / 10 ^ 9) (fl SUM_LOG_X_SQ) (real_of SUM_LOG_X_SQ) \<and>
   close_to (1 / 10 ^ 3) (TARGET_LOG_PROB_double (Fin 1) (Fin (6 / 10)))
     (lognormal_log_likelihood log_data 1 (6 / 10) + (- 1\<^sup>2 / 2) + (- (6 / 10)\<^sup>2 / 2)) \<and>
   (0 :: real) < 6 / 10 \<and>
   TARGET_LOG_PROB (Fin 1) (Fin (6 / 10))
     = Fin (lognormal_log_likelihood log_data 1 (6 / 10) + (- 1\<^sup>2 / 2) + (- (6 / 10)\<^sup>2 / 2))"
proof -
  have a: "Fin (- 1) \<le> (0 :: jsnum)" by (simp add: jsnum_lit)
  have b: "1 / 10 ^ 50 \<le> (6 / 10 :: real)" "(6 / 10 :: real) \<le> 10 ^ 50" "\<bar>1 :: real\<bar> \<le> 10 ^ 50"
    "(0 :: real) < 6 / 10" "1 / 20 \<le> (6 / 10 :: real)" "(6 / 10 :: real) \<le> 20" "\<bar>1 :: real\<bar> \<le> 20"
    by simp_all
  have c: "abs_within 1000 (Math_log_double (Fin (6 / 10)))"
    using b(1,2) by (rule Math_log_double_bounded)
  have d: "abs_within (10 ^ 6) (fl SUM_LOG_X)"
    by (rule fl_abs_within [OF SUM_LOG_X_bounded]) simp_all
  have e: "abs_within (10 ^ 8) (fl SUM_LOG_X_SQ)"
    by (rule fl_abs_within [OF SUM_LOG_X_SQ_bounded]) simp_all
  have f: "close_to (1 / 10 ^ 9) (Math_log_double (Fin (6 / 10))) (ln (6 / 10))"
    by (rule approx_close_to [OF Math_log_double_accurate [OF b(5,6)]]) simp
  have g: "close_to (1 / 10 ^ 9) (fl SUM_LOG_X) (real_of SUM_LOG_X)"
    using approx_close_to [OF cached_sums_accurate(1), of "1 / 10 ^ 9"] by (simp add: SUM_LOG_X_eq)
  have h: "close_to (1 / 10 ^ 9) (fl SUM_LOG_X_SQ) (real_of SUM_LOG_X_SQ)"
    using approx_close_to [OF cached_sums_accurate(2), of "1 / 10 ^ 9"] by (simp add: SUM_LOG_X_SQ_eq)
  note t = TARGET_LOG_PROB_total
    [of "Fin (- 1)" fl Math_log_double "fl SUM_LOG_X" "fl SUM_LOG_X_SQ" NaN "6 / 10" 1]
  from t a have 1: "TARGET_LOG_PROB_double NaN (Fin (- 1)) = NInf"
    unfolding TARGET_LOG_PROB_double_def by blast
  from t b c d e have 2: "isFinite (TARGET_LOG_PROB_double (Fin 1) (Fin (6 / 10)))"
    unfolding TARGET_LOG_PROB_double_def by blast
  from t b f g h have 3: "close_to (1 / 10 ^ 3) (TARGET_LOG_PROB_double (Fin 1) (Fin (6 / 10)))
     (lognormal_log_likelihood log_data 1 (6 / 10) + (- 1\<^sup>2 / 2) + (- (6 / 10)\<^sup>2 / 2))"
    unfolding TARGET_LOG_PROB_double_def by blast
  from t b(4) have 4: "TARGET_LOG_PROB_in (\<lambda>v. v) Math_log SUM_LOG_X SUM_LOG_X_SQ (Fin 1) (Fin (6 / 10))
     = Fin (lognormal_log_likelihood log_data 1 (6 / 10) + (- 1\<^sup>2 / 2) + (- (6 / 10)\<^sup>2 / 2))"
    by blast
  have 5: "TARGET_LOG_PROB_in (\<lambda>v. v) Math_log SUM_LOG_X SUM_LOG_X_SQ (Fin 1) (Fin (6 / 10))
     = TARGET_LOG_PROB (Fin 1) (Fin (6 / 10))"
    by (rule TARGET_LOG_PROB_exact)
  from a b c d e f g h 1 2 3 4 5 show ?thesis by simp
qed

section \<open>The Metropolis-Hastings step and the sampler\<close>

text \<open>
  The body of \<open>mhStep\<close>, with the log-posterior it calls as a parameter: this lets one
  say which results do not depend on that function. The generator is passed in and
  returned with its state advanced.
\<close>

definition mhStep_on ::
  "(jsnum \<Rightarrow> jsnum \<Rightarrow> jsnum) \<Rightarrow> jsnum \<Rightarrow> jsnum \<Rightarrow> jsnum \<Rightarrow> rng \<Rightarrow> (jsnum \<times> jsnum \<times> bool) \<times> rng" where
  "mhStep_on target muCurr sigCurr step g0 =
     (let (u1, g1) = rng_call g0;
          muProp = muCurr + (u1 * 2 - 1) * step;
          (u2, g2) = rng_call g1;
          sigProp = sigCurr + (u2 * 2 - 1) * step
      in if sigProp \<le> 0 then ((muCurr, sigCurr, False), g2)
         else
           (let logA = target muProp sigProp - target muCurr sigCurr;
                (u3, g3) = rng_call g2
            in if Math_log (u3 + 0.000000000001) < logA then ((muProp, sigProp, True), g3)
               else ((muCurr, sigCurr, False), g3)))"

definition mhStep :: "jsnum \<Rightarrow> jsnum \<Rightarrow> jsnum \<Rightarrow> rng \<Rightarrow> (jsnum \<times> jsnum \<times> bool) \<times> rng" where
  "mhStep = mhStep_on TARGET_LOG_PROB"

text \<open>The proposal for \<open>sigma\<close> that \<open>mhStep\<close> computes from its second draw.\<close>

definition proposed_sigma :: "jsnum \<Rightarrow> jsnum \<Rightarrow> rng \<Rightarrow> jsnum" where
  "proposed_sigma sigCurr step g0 =
     (let (u1, g1) = rng_call g0; (u2, g2) = rng_call g1 in sigCurr + (u2 * 2 - 1) * step)"

text \<open>The interface \<open>Point\<close>; its fields \<open>x\<close> and \<open>y\<close> are \<open>px\<close> and \<open>py\<close> here.\<close>

record Point =
  px :: jsnum
  py :: jsnum

text \<open>The state of the component: its seven \<open>useState\<close> cells.\<close>

record Visualizer =
  samples :: "Point list"
  path :: "Point list"
  running :: bool
  numSamples :: int
  stepSize :: jsnum
  seed :: int
  acceptance :: "jsnum option"

text \<open>The local variables of \<open>runSampler\<close> that its loop updates.\<close>

record sampler_vars =
  cur_mu :: jsnum
  cur_sig :: jsnum
  gen :: rng
  accepted :: nat
  newSamples :: "Point list"
  trajectory :: "Point list"

definition sampler_body :: "int \<Rightarrow> jsnum \<Rightarrow> int \<Rightarrow> sampler_vars \<Rightarrow> sampler_vars" where
  "sampler_body burnIn step i st =
     (let ((nm, ns, acc), g') = mhStep (cur_mu st) (cur_sig st) step (gen st);
          st1 = st\<lparr>cur_mu := nm, cur_sig := ns, gen := g'\<rparr>;
          st2 = (if acc then st1\<lparr>accepted := accepted st1 + 1\<rparr> else st1);
          st3 = (if burnIn \<le> i
                 then st2\<lparr>newSamples := newSamples st2 @ [\<lparr>px = nm, py = ns\<rparr>]\<rparr> else st2)
      in if burnIn \<le> i \<and> i < burnIn + 80
         then st3\<lparr>trajectory := trajectory st3 @ [\<lparr>px = nm, py = ns\<rparr>]\<rparr> else st3)"

function sampler_loop :: "int \<Rightarrow> int \<Rightarrow> int \<Rightarrow> jsnum \<Rightarrow> sampler_vars \<Rightarrow> sampler_vars" where
  "sampler_loop i total' burnIn step st =
     (if i < total' then sampler_loop (i + 1) total' burnIn step (sampler_body burnIn step i st)
      else st)"
  by pat_completeness auto
termination
  by (relation "measure (\<lambda>(i, total', burnIn, step, st). nat (total' - i))") auto

declare sampler_loop.simps [simp del]

definition runSampler :: "Visualizer \<Rightarrow> Visualizer" where
  "runSampler v =
     (let g = seededRNG (seed v);
          mu = 1.0; sig = 0.6;
          burnIn = 100;
          st0 = \<lparr>cur_mu = mu, cur_sig = sig, gen = g, accepted = 0, newSamples = [],
                 trajectory = [\<lparr>px = mu, py = sig\<rparr>]\<rparr>;
          total' = numSamples v + burnIn;
          st = sampler_loop 0 total' burnIn (stepSize v) st0
      in v\<lparr>samples := newSamples st, path := trajectory st,
            acceptance := Some (Num (accepted st) / NumI total'), running := False\<rparr>)"

text \<open>The initial state of the component: the defaults of its \<open>useState\<close> calls.\<close>

definition initial_Visualizer :: Visualizer where
  "initial_Visualizer =
     \<lparr>samples = [], path = [], running = False, numSamples = 300, stepSize = 0.15,
      seed = 42, acceptance = None\<rparr>"

subsection \<open>The chain, step by step\<close>

text \<open>
  A description of the run that is independent of the loop of \<open>runSampler\<close>:
  \<open>chain s0 step k\<close> is the position and the generator after \<open>k\<close> calls of \<open>mhStep\<close>, from
  the starting position \<open>(1.0, 0.6)\<close> and the generator seeded with \<open>s0\<close>. Step number
  \<open>k\<close> (counted from 0) leads from \<open>chain s0 step k\<close> to \<open>chain s0 step (Suc k)\<close>; the
  burn-in steps are the steps 0 to 99.
\<close>

primrec chain :: "int \<Rightarrow> jsnum \<Rightarrow> nat \<Rightarrow> (jsnum \<times> jsnum) \<times> rng" where
  "chain s0 step 0 = ((1.0, 0.6), seededRNG s0)"
| "chain s0 step (Suc k) =
     (let ((m, s), g) = chain s0 step k;
          ((nm, ns, acc), g') = mhStep m s step g
      in ((nm, ns), g'))"

definition chain_point :: "int \<Rightarrow> jsnum \<Rightarrow> nat \<Rightarrow> Point" where
  "chain_point s0 step k = (let ((m, s), g) = chain s0 step k in \<lparr>px = m, py = s\<rparr>)"

definition step_accepted :: "int \<Rightarrow> jsnum \<Rightarrow> nat \<Rightarrow> bool" where
  "step_accepted s0 step k =
     (let ((m, s), g) = chain s0 step k;
          ((nm, ns, acc), g') = mhStep m s step g
      in acc)"

definition accepted_count :: "int \<Rightarrow> jsnum \<Rightarrow> nat \<Rightarrow> nat" where
  "accepted_count s0 step n = length (filter (step_accepted s0 step) [0..<n])"

text \<open>The states after the post-burn-in steps \<open>100, \<dots>, n - 1\<close>.\<close>

definition post_burn_in :: "int \<Rightarrow> jsnum \<Rightarrow> nat \<Rightarrow> Point list" where
  "post_burn_in s0 step n = map (\<lambda>j. chain_point s0 step (Suc j)) [100..<n]"

definition sampler_inv :: "int \<Rightarrow> jsnum \<Rightarrow> nat \<Rightarrow> sampler_vars \<Rightarrow> bool" where
  "sampler_inv s0 step k st \<longleftrightarrow>
     ((cur_mu st, cur_sig st), gen st) = chain s0 step k \<and>
     accepted st = accepted_count s0 step k \<and>
     newSamples st = post_burn_in s0 step k \<and>
     trajectory st = chain_point s0 step 0 # post_burn_in s0 step (min k 180)"

lemma sampler_body_inv:
  assumes "sampler_inv s0 step k st"
  shows "sampler_inv s0 step (Suc k) (sampler_body 100 step (int k) st)"
proof -
  obtain nm ns acc g' where m: "mhStep (cur_mu st) (cur_sig st) step (gen st) = ((nm, ns, acc), g')"
    by (metis prod_cases3 surj_pair)
  from assms have c: "chain s0 step k = ((cur_mu st, cur_sig st), gen st)"
    by (simp add: sampler_inv_def)
  have c': "chain s0 step (Suc k) = ((nm, ns), g')"
    by (simp add: c m)
  have p: "chain_point s0 step (Suc k) = \<lparr>px = nm, py = ns\<rparr>"
    by (simp add: chain_point_def c' del: chain.simps)
  have a: "step_accepted s0 step k = acc"
    by (simp add: step_accepted_def c m)
  have b: "sampler_body 100 step (int k) st =
      st\<lparr>cur_mu := nm, cur_sig := ns, gen := g',
         accepted := (if acc then accepted st + 1 else accepted st),
         newSamples := (if 100 \<le> k then newSamples st @ [\<lparr>px = nm, py = ns\<rparr>] else newSamples st),
         trajectory := (if 100 \<le> k \<and> k < 180 then trajectory st @ [\<lparr>px = nm, py = ns\<rparr>]
                        else trajectory st)\<rparr>"
    by (simp add: sampler_body_def m)
  have s1: "[100..<Suc k] = (if 100 \<le> k then [100..<k] @ [k] else [])"
    by simp
  have s2: "[100..<min (Suc k) 180] =
      (if 100 \<le> k \<and> k < 180 then [100..<min k 180] @ [k] else [100..<min k 180])"
  proof (cases "k < 180")
    case True
    then have "min (Suc k) 180 = Suc k" "min k 180 = k" by simp_all
    then show ?thesis using True by (simp del: upt_rec_numeral)
  next
    case False
    then have "min (Suc k) 180 = 180" "min k 180 = 180" by simp_all
    then show ?thesis using False by (simp del: upt_rec_numeral)
  qed
  have s3: "[0..<Suc k] = [0..<k] @ [k]"
    by simp
  show ?thesis
    unfolding sampler_inv_def accepted_count_def post_burn_in_def b s1 s2 s3
    using assms
    by (simp add: sampler_inv_def accepted_count_def post_burn_in_def c' p a
        del: chain.simps upt_rec_numeral upt_Suc)
qed

lemma sampler_loop_inv:
  "sampler_inv s0 step k st \<Longrightarrow> int k \<le> total' \<Longrightarrow>
   sampler_inv s0 step (nat total') (sampler_loop (int k) total' 100 step st)"
proof (induction "nat total' - k" arbitrary: k st)
  case 0
  then have "nat total' = k" by simp
  with 0 show ?case by (subst sampler_loop.simps) auto
next
  case (Suc d)
  then have lt: "int k < total'" by linarith
  have "sampler_inv s0 step (nat total')
      (sampler_loop (int (Suc k)) total' 100 step (sampler_body 100 step (int k) st))"
  proof (rule Suc.hyps(1))
    show "d = nat total' - Suc k" using Suc.hyps(2) by simp
    show "sampler_inv s0 step (Suc k) (sampler_body 100 step (int k) st)"
      by (rule sampler_body_inv [OF Suc.prems(1)])
    show "int (Suc k) \<le> total'" using lt by simp
  qed
  moreover have "sampler_loop (int k) total' 100 step st
      = sampler_loop (int (Suc k)) total' 100 step (sampler_body 100 step (int k) st)"
    using lt by (subst sampler_loop.simps) (simp add: add.commute)
  ultimately show ?case by simp
qed

lemma sampler_loop_from_start:
  fixes s0 :: int and step :: jsnum and total' :: int
  defines "st0 \<equiv> \<lparr>cur_mu = 1.0, cur_sig = 0.6, gen = seededRNG s0, accepted = 0,
      newSamples = [], trajectory = [\<lparr>px = 1.0, py = 0.6\<rparr>]\<rparr>"
  shows "sampler_inv s0 step (nat total') (sampler_loop 0 total' 100 step st0)"
proof -
  have i0: "sampler_inv s0 step 0 st0"
    by (simp add: sampler_inv_def st0_def accepted_count_def post_burn_in_def chain_point_def)
  show ?thesis
  proof (cases "0 \<le> total'")
    case True
    with sampler_loop_inv [OF i0, of total'] show ?thesis by simp
  next
    case False
    then have "sampler_loop 0 total' 100 step st0 = st0"
      by (subst sampler_loop.simps) simp
    moreover from False have "nat total' = 0" by simp
    ultimately show ?thesis using i0 by simp
  qed
qed

text \<open>What one run leaves in the component, in terms of the chain.\<close>

lemma runSampler_samples:
  "samples (runSampler v) = post_burn_in (seed v) (stepSize v) (nat (numSamples v + 100))"
  using sampler_loop_from_start [of "seed v" "stepSize v" "numSamples v + 100"]
  by (simp add: runSampler_def sampler_inv_def Let_def)

lemma runSampler_path:
  "path (runSampler v) =
     chain_point (seed v) (stepSize v) 0
       # post_burn_in (seed v) (stepSize v) (min (nat (numSamples v + 100)) 180)"
  using sampler_loop_from_start [of "seed v" "stepSize v" "numSamples v + 100"]
  by (simp add: runSampler_def sampler_inv_def Let_def)

lemma runSampler_acceptance:
  "acceptance (runSampler v) =
     Some (Num (accepted_count (seed v) (stepSize v) (nat (numSamples v + 100)))
           / NumI (numSamples v + 100))"
  using sampler_loop_from_start [of "seed v" "stepSize v" "numSamples v + 100"]
  by (simp add: runSampler_def sampler_inv_def Let_def)

lemma post_burn_in_take:
  "post_burn_in s0 step (min n 180) = take 80 (post_burn_in s0 step n)"
proof -
  have "take 80 [100..<n] = [100..<min n 180]"
    by (simp add: take_upt min_def del: upt_rec_numeral)
  then show ?thesis
    by (simp add: post_burn_in_def take_map del: upt_rec_numeral)
qed

lemma length_post_burn_in: "length (post_burn_in s0 step n) = n - 100"
  by (simp add: post_burn_in_def del: upt_rec_numeral)



subsection \<open>The trajectory\<close>

lemma chain_point_0: "chain_point s0 step 0 = \<lparr>px = 1.0, py = 0.6\<rparr>"
  by (simp add: chain_point_def)

text \<open>
  Claim C9, as stated: every point of the retained trajectory is a chain state from the
  first 80 post-burn-in steps. It fails: the trajectory starts with the starting state of
  the chain, which no post-burn-in step recorded. With no sample requested the
  trajectory still holds that point while there is no post-burn-in state at all; with the
  default 300 samples it has 81 points, one more than the 80 states it could be drawn
  from in order.
\<close>

theorem trajectory_only_post_burn_in_counterexample:
  "\<not> set (path (runSampler (initial_Visualizer\<lparr>numSamples := 0\<rparr>)))
       \<subseteq> set (take 80 (samples (runSampler (initial_Visualizer\<lparr>numSamples := 0\<rparr>)))) \<and>
   \<not> subseq (path (runSampler initial_Visualizer))
         (take 80 (samples (runSampler initial_Visualizer)))"
proof
  show "\<not> set (path (runSampler (initial_Visualizer\<lparr>numSamples := 0\<rparr>)))
       \<subseteq> set (take 80 (samples (runSampler (initial_Visualizer\<lparr>numSamples := 0\<rparr>))))"
    by (simp add: runSampler_samples runSampler_path post_burn_in_def)
next
  have "length (path (runSampler initial_Visualizer)) = 81"
    by (simp add: runSampler_path length_post_burn_in initial_Visualizer_def)
  moreover have "length (take 80 (samples (runSampler initial_Visualizer))) = 80"
    by (simp add: runSampler_samples length_post_burn_in initial_Visualizer_def)
  ultimately have "\<not> length (path (runSampler initial_Visualizer))
      \<le> length (take 80 (samples (runSampler initial_Visualizer)))"
    by simp
  then show "\<not> subseq (path (runSampler initial_Visualizer))
         (take 80 (samples (runSampler initial_Visualizer)))"
    using list_emb_length by blast
qed

text \<open>
  Claim C9, amended: the retained trajectory is the starting state \<open>(1.0, 0.6)\<close> followed
  by the chain states after the first \<open>min n 80\<close> post-burn-in steps, in order, where the
  samples are the chain states after the steps \<open>100, \<dots>, n + 99\<close>. Apart from the starting
  state, no state recorded before the end of burn-in is in it.
\<close>

theorem trajectory_start_then_first_80:
  "path (runSampler v) = \<lparr>px = 1.0, py = 0.6\<rparr> # take 80 (samples (runSampler v)) \<and>
   samples (runSampler v)
     = map (\<lambda>j. chain_point (seed v) (stepSize v) (Suc j)) [100..<nat (numSamples v + 100)]"
proof
  show "path (runSampler v) = \<lparr>px = 1.0, py = 0.6\<rparr> # take 80 (samples (runSampler v))"
    by (simp only: runSampler_path runSampler_samples post_burn_in_take chain_point_0)
next
  show "samples (runSampler v)
     = map (\<lambda>j. chain_point (seed v) (stepSize v) (Suc j)) [100..<nat (numSamples v + 100)]"
    by (simp only: runSampler_samples post_burn_in_def)
qed

subsection \<open>The acceptance rate\<close>

text \<open>
  Claim C7. The acceptance rate of a run with \<open>n \<ge> 0\<close> requested samples is the number
  of accepted steps among all \<open>n + 100\<close> steps, the 100 burn-in steps included, divided
  by \<open>n + 100\<close>.
\<close>

theorem acceptance_includes_burn_in:
  assumes "0 \<le> numSamples v"
  shows "acceptance (runSampler v)
     = Some (Fin (real (accepted_count (seed v) (stepSize v) (nat (numSamples v) + 100))
                  / (real_of_int (numSamples v) + 100)))"
proof -
  from assms have n: "nat (numSamples v + 100) = nat (numSamples v) + 100"
    by simp
  from assms have "real_of_int (numSamples v) + 100 \<noteq> 0"
    by linarith
  then show ?thesis
    by (simp add: runSampler_acceptance n jsnum_lit)
qed

theorem acceptance_includes_burn_in_witness:
  "0 \<le> numSamples initial_Visualizer \<and>
   acceptance (runSampler initial_Visualizer)
     = Some (Fin (real (accepted_count 42 0.15 400) / 400))"
proof -
  have h: "0 \<le> numSamples initial_Visualizer"
    by (simp add: initial_Visualizer_def)
  show ?thesis
    using h acceptance_includes_burn_in [OF h] by (simp add: initial_Visualizer_def)
qed

subsection \<open>Reproducibility\<close>

text \<open>
  Claim C1. The samples, the trajectory and the acceptance rate of a run are determined
  by the seed, the step size and the sample count: two runs that agree on these three
  agree on all three results, whatever else the component holds (in particular the
  results of an earlier run).
\<close>

theorem runSampler_deterministic:
  assumes "seed v = seed w" and "stepSize v = stepSize w" and "numSamples v = numSamples w"
  shows "samples (runSampler v) = samples (runSampler w) \<and>
         path (runSampler v) = path (runSampler w) \<and>
         acceptance (runSampler v) = acceptance (runSampler w)"
  by (simp add: runSampler_samples runSampler_path runSampler_acceptance assms)

text \<open>A second run, started from the state the first run left, repeats its results.\<close>

theorem runSampler_deterministic_witness:
  "seed initial_Visualizer = seed (runSampler initial_Visualizer) \<and>
   stepSize initial_Visualizer = stepSize (runSampler initial_Visualizer) \<and>
   numSamples initial_Visualizer = numSamples (runSampler initial_Visualizer) \<and>
   samples (runSampler initial_Visualizer) = samples (runSampler (runSampler initial_Visualizer)) \<and>
   path (runSampler initial_Visualizer) = path (runSampler (runSampler initial_Visualizer)) \<and>
   acceptance (runSampler initial_Visualizer)
     = acceptance (runSampler (runSampler initial_Visualizer))"
proof -
  have a: "seed initial_Visualizer = seed (runSampler initial_Visualizer)"
    and b: "stepSize initial_Visualizer = stepSize (runSampler initial_Visualizer)"
    and c: "numSamples initial_Visualizer = numSamples (runSampler initial_Visualizer)"
    by (simp_all add: runSampler_def Let_def)
  from runSampler_deterministic [OF a b c] a b c show ?thesis
    by blast
qed

subsection \<open>The chain stays in \<open>sigma > 0\<close>\<close>

lemma TARGET_LOG_PROB_NaN: "TARGET_LOG_PROB mu NaN = NaN"
  by (simp add: TARGET_LOG_PROB_def Let_def plus_NaN_right times_NaN_right
      less_eq_jsnum_def zero_jsnum_def)

lemma mhStep_on_rejects:
  assumes "proposed_sigma sigCurr step g \<le> 0"
  shows "mhStep_on target muCurr sigCurr step g
     = ((muCurr, sigCurr, False), snd (rng_call (snd (rng_call g))))"
proof -
  obtain u1 g1 where r1: "rng_call g = (u1, g1)" by (metis surj_pair)
  obtain u2 g2 where r2: "rng_call g1 = (u2, g2)" by (metis surj_pair)
  from assms show ?thesis
    by (simp add: mhStep_on_def proposed_sigma_def r1 r2 Let_def)
qed

text \<open>
  A proposal that is accepted has passed \<open>sigProp \<le> 0\<close> as false and the comparison with
  \<open>logA\<close> as true. The second excludes \<open>NaN\<close>: the log-posterior of a \<open>NaN\<close> is \<open>NaN\<close>, and
  so is \<open>logA\<close>.
\<close>

lemma mhStep_sigma_positive:
  assumes "0 < sigCurr" and "mhStep muCurr sigCurr step g = ((nm, ns, acc), g')"
  shows "0 < ns"
proof -
  obtain u1 g1 where r1: "rng_call g = (u1, g1)" by (metis surj_pair)
  obtain u2 g2 where r2: "rng_call g1 = (u2, g2)" by (metis surj_pair)
  obtain u3 g3 where r3: "rng_call g2 = (u3, g3)" by (metis surj_pair)
  define muProp where "muProp = muCurr + (u1 * 2 - 1) * step"
  define sigProp where "sigProp = sigCurr + (u2 * 2 - 1) * step"
  define logA where "logA = TARGET_LOG_PROB muProp sigProp - TARGET_LOG_PROB muCurr sigCurr"
  have m: "mhStep muCurr sigCurr step g =
      (if sigProp \<le> 0 then ((muCurr, sigCurr, False), g2)
       else if Math_log (u3 + 0.000000000001) < logA then ((muProp, sigProp, True), g3)
       else ((muCurr, sigCurr, False), g3))"
    by (simp add: mhStep_def mhStep_on_def r1 r2 r3 Let_def muProp_def sigProp_def logA_def)
  show ?thesis
  proof (cases "\<not> sigProp \<le> 0 \<and> Math_log (u3 + 0.000000000001) < logA")
    case False
    with m assms(2) have "ns = sigCurr" by (auto split: if_splits)
    with assms(1) show ?thesis by simp
  next
    case True
    with m assms(2) have ns: "ns = sigProp" by (auto split: if_splits)
    have "sigProp \<noteq> NaN"
    proof
      assume "sigProp = NaN"
      then have "logA = NaN"
        by (simp add: logA_def TARGET_LOG_PROB_NaN minus_NaN_left)
      with True show False by (simp add: not_less_NaN)
    qed
    with True ns show ?thesis by (simp add: positive_if_not_le_0)
  qed
qed

lemma chain_sigma_positive: "0 < snd (fst (chain s0 step k))"
proof (induction k)
  case 0
  show ?case by (simp add: jsnum_lit)
next
  case (Suc k)
  obtain m s g where c: "chain s0 step k = ((m, s), g)"
    by (metis surj_pair)
  obtain nm ns acc g' where st: "mhStep m s step g = ((nm, ns, acc), g')"
    by (metis prod_cases3 surj_pair)
  from Suc c have "0 < s" by simp
  from mhStep_sigma_positive [OF this st] show ?case
    by (simp add: c st)
qed

lemma chain_point_sigma_positive: "0 < py (chain_point s0 step k)"
proof -
  obtain m s g where c: "chain s0 step k = ((m, s), g)"
    by (metis surj_pair)
  with chain_sigma_positive [of s0 step k] show ?thesis
    by (simp add: chain_point_def)
qed

text \<open>
  Claim C2. For every seed, step size and sample count, every state in the sample set
  and in the trajectory of a run has \<open>sigma > 0\<close>; the chain starts at \<open>sigma = 0.6\<close>.
  Whenever the proposed \<open>sigma\<close> is \<open>\<le> 0\<close>, \<open>mhStep\<close> returns the current state unchanged
  with \<open>accepted = false\<close>, after two draws, and the result is the same for every
  log-posterior: none is evaluated.
\<close>

theorem sigma_stays_positive:
  "(\<forall>p \<in> set (samples (runSampler v)) \<union> set (path (runSampler v)). 0 < py p) \<and>
   py (hd (path (runSampler v))) = 0.6 \<and>
   (\<forall>target muCurr sigCurr step g.
      proposed_sigma sigCurr step g \<le> 0 \<longrightarrow>
      mhStep_on target muCurr sigCurr step g
        = ((muCurr, sigCurr, False), snd (rng_call (snd (rng_call g)))))"
proof (intro conjI ballI allI impI)
  show "py (hd (path (runSampler v))) = 0.6"
    by (simp add: runSampler_path chain_point_0)
next
  fix p
  assume "p \<in> set (samples (runSampler v)) \<union> set (path (runSampler v))"
  then obtain k where "p = chain_point (seed v) (stepSize v) k"
    by (auto simp add: runSampler_samples runSampler_path post_burn_in_def
        simp del: upt_rec_numeral)
  then show "0 < py p"
    by (simp add: chain_point_sigma_positive)
next
  fix target muCurr sigCurr step g
  assume "proposed_sigma sigCurr step g \<le> 0"
  then show "mhStep_on target muCurr sigCurr step g
        = ((muCurr, sigCurr, False), snd (rng_call (snd (rng_call g))))"
    by (rule mhStep_on_rejects)
qed

text \<open>The first two draws of the generator seeded with 42.\<close>

lemma rng_call_42: "rng_call 42 = (Fin (1083814273 / 4294967296), 1083814273)"
  by (simp add: rng_call_def bitand32_mask ToInt32_def ToUint32_def jsnum_lit)

lemma rng_call_42_second: "rng_call 1083814273 = (Fin (378494188 / 4294967296), 378494188)"
  by (simp add: rng_call_def bitand32_mask ToInt32_def ToUint32_def jsnum_lit)

text \<open>
  The starting state is in the trajectory of the default run and has \<open>sigma = 0.6 > 0\<close>;
  from \<open>sigma = 0.2\<close> with step size \<open>0.3\<close> and seed 42 the proposal is below zero, and the step
  is rejected for the log-posterior of the program.
\<close>

theorem sigma_stays_positive_witness:
  "\<lparr>px = 1.0, py = 0.6\<rparr> \<in> set (samples (runSampler initial_Visualizer))
       \<union> set (path (runSampler initial_Visualizer)) \<and>
   0 < py \<lparr>px = 1.0, py = 0.6\<rparr> \<and>
   proposed_sigma 0.2 0.3 (seededRNG 42) \<le> 0 \<and>
   mhStep 1.0 0.2 0.3 (seededRNG 42) = ((1.0, 0.2, False), 378494188)"
proof -
  have mem: "\<lparr>px = 1.0, py = 0.6\<rparr> \<in> set (samples (runSampler initial_Visualizer))
       \<union> set (path (runSampler initial_Visualizer))"
    by (simp add: runSampler_path chain_point_0)
  have le: "proposed_sigma 0.2 0.3 (seededRNG 42) \<le> 0"
    by (simp add: proposed_sigma_def seededRNG_def rng_call_42 rng_call_42_second jsnum_lit)
  from sigma_stays_positive [of initial_Visualizer]
  have a: "\<forall>p \<in> set (samples (runSampler initial_Visualizer))
        \<union> set (path (runSampler initial_Visualizer)). 0 < py p"
    and b: "\<forall>target muCurr sigCurr step g.
      proposed_sigma sigCurr step g \<le> 0 \<longrightarrow>
      mhStep_on target muCurr sigCurr step g
        = ((muCurr, sigCurr, False), snd (rng_call (snd (rng_call g))))"
    by blast+
  from a mem have pos: "0 < py \<lparr>px = 1.0, py = 0.6\<rparr>"
    by blast
  from b le have "mhStep_on TARGET_LOG_PROB 1.0 0.2 0.3 (seededRNG 42)
      = ((1.0, 0.2, False), snd (rng_call (snd (rng_call (seededRNG 42)))))"
    by blast
  then have rej: "mhStep 1.0 0.2 0.3 (seededRNG 42) = ((1.0, 0.2, False), 378494188)"
    by (simp add: mhStep_def seededRNG_def rng_call_42 rng_call_42_second)
  from mem pos le rej show ?thesis
    by blast
qed

section \<open>The heat-map grid\<close>

definition MU_MIN :: jsnum where "MU_MIN = 0.5"
definition MU_MAX :: jsnum where "MU_MAX = 1.7"
definition SIG_MIN :: jsnum where "SIG_MIN = 0.2"
definition SIG_MAX :: jsnum where "SIG_MAX = 1.1"
definition GRID_STEPS :: nat where "GRID_STEPS = 50"

text \<open>
  The two passes of \<open>buildContourGrid\<close>, each a loop over \<open>i\<close> around a loop over \<open>j\<close>, with
  the function that is evaluated as a parameter (the source evaluates \<open>TARGET_LOG_PROB\<close>).
  The first pass creates row \<open>i\<close> with \<open>grid[i] = []\<close>, stores every value and tracks the
  largest finite one; the second pass overwrites every cell with its intensity.
\<close>

function fill_inner ::
  "(jsnum \<Rightarrow> jsnum \<Rightarrow> jsnum) \<Rightarrow> nat \<Rightarrow> nat \<Rightarrow> jsnum list list \<Rightarrow> jsnum \<Rightarrow> jsnum list list \<times> jsnum" where
  "fill_inner g i j grid maxV =
     (if j < GRID_STEPS then
        (let mu = MU_MIN + (Num i / (Num GRID_STEPS - 1)) * (MU_MAX - MU_MIN);
             sig = SIG_MIN + (Num j / (Num GRID_STEPS - 1)) * (SIG_MAX - SIG_MIN);
             v = g mu sig;
             grid1 = grid[i := array_set (grid ! i) j v];
             maxV1 = (if isFinite v then Math_max maxV v else maxV)
         in fill_inner g i (j + 1) grid1 maxV1)
      else (grid, maxV))"
  by pat_completeness auto
termination
  by (relation "measure (\<lambda>(g, i, j, grid, maxV). GRID_STEPS - j)") auto

declare fill_inner.simps [simp del]

function fill_outer ::
  "(jsnum \<Rightarrow> jsnum \<Rightarrow> jsnum) \<Rightarrow> nat \<Rightarrow> jsnum list list \<Rightarrow> jsnum \<Rightarrow> jsnum list list \<times> jsnum" where
  "fill_outer g i grid maxV =
     (if i < GRID_STEPS then
        (let grid1 = array_set grid i [];
             (grid2, maxV2) = fill_inner g i 0 grid1 maxV
         in fill_outer g (i + 1) grid2 maxV2)
      else (grid, maxV))"
  by pat_completeness auto
termination
  by (relation "measure (\<lambda>(g, i, grid, maxV). GRID_STEPS - i)") auto

declare fill_outer.simps [simp del]

function norm_inner :: "nat \<Rightarrow> nat \<Rightarrow> jsnum list list \<Rightarrow> jsnum \<Rightarrow> jsnum list list" where
  "norm_inner i j grid maxV =
     (if j < GRID_STEPS then
        norm_inner i (j + 1)
          (grid[i := array_set (grid ! i) j
             (if isFinite (grid ! i ! j) then Math_exp (grid ! i ! j - maxV) else 0)])
          maxV
      else grid)"
  by pat_completeness auto
termination
  by (relation "measure (\<lambda>(i, j, grid, maxV). GRID_STEPS - j)") auto

declare norm_inner.simps [simp del]

function norm_outer :: "nat \<Rightarrow> jsnum list list \<Rightarrow> jsnum \<Rightarrow> jsnum list list" where
  "norm_outer i grid maxV =
     (if i < GRID_STEPS then norm_outer (i + 1) (norm_inner i 0 grid maxV) maxV else grid)"
  by pat_completeness auto
termination
  by (relation "measure (\<lambda>(i, grid, maxV). GRID_STEPS - i)") auto

declare norm_outer.simps [simp del]

definition buildContourGrid_on :: "(jsnum \<Rightarrow> jsnum \<Rightarrow> jsnum) \<Rightarrow> jsnum list list" where
  "buildContourGrid_on g =
     (let (grid, maxV) = fill_outer g 0 [] NInf in norm_outer 0 grid maxV)"

definition buildContourGrid :: "jsnum list list" where
  "buildContourGrid = buildContourGrid_on TARGET_LOG_PROB"

subsection \<open>What the loops compute\<close>

text \<open>The coordinates of a cell, the table of all evaluations, the running maximum and
  the intensity of a value, as the loops compute them.\<close>

definition grid_mu :: "nat \<Rightarrow> jsnum" where
  "grid_mu i = MU_MIN + (Num i / (Num GRID_STEPS - 1)) * (MU_MAX - MU_MIN)"

definition grid_sig :: "nat \<Rightarrow> jsnum" where
  "grid_sig j = SIG_MIN + (Num j / (Num GRID_STEPS - 1)) * (SIG_MAX - SIG_MIN)"

definition evaluations :: "(jsnum \<Rightarrow> jsnum \<Rightarrow> jsnum) \<Rightarrow> jsnum list list" where
  "evaluations g = map (\<lambda>i. map (\<lambda>j. g (grid_mu i) (grid_sig j)) [0..<GRID_STEPS]) [0..<GRID_STEPS]"

definition track_max :: "jsnum \<Rightarrow> jsnum list \<Rightarrow> jsnum" where
  "track_max = foldl (\<lambda>m v. if isFinite v then Math_max m v else m)"

definition intensity :: "jsnum \<Rightarrow> jsnum \<Rightarrow> jsnum" where
  "intensity maxV c = (if isFinite c then Math_exp (c - maxV) else 0)"

lemma fill_inner_eq:
  "i < length grid \<Longrightarrow> length (grid ! i) = j \<Longrightarrow> j \<le> GRID_STEPS \<Longrightarrow>
   fill_inner g i j grid maxV
     = (grid[i := grid ! i @ map (\<lambda>j. g (grid_mu i) (grid_sig j)) [j..<GRID_STEPS]],
        track_max maxV (map (\<lambda>j. g (grid_mu i) (grid_sig j)) [j..<GRID_STEPS]))"
proof (induction "GRID_STEPS - j" arbitrary: j grid maxV)
  case 0
  then have "j = GRID_STEPS" by simp
  then show ?case
    by (subst fill_inner.simps) (simp add: track_max_def)
next
  case (Suc d)
  then have lt: "j < GRID_STEPS" by simp
  define v where "v = g (grid_mu i) (grid_sig j)"
  define grid1 where "grid1 = grid[i := array_set (grid ! i) j v]"
  define maxV1 where "maxV1 = (if isFinite v then Math_max maxV v else maxV)"
  have g1: "i < length grid1" "grid1 ! i = grid ! i @ [v]" "length (grid1 ! i) = j + 1"
    using Suc.prems by (simp_all add: grid1_def array_set_def)
  have u: "[j..<GRID_STEPS] = j # [j + 1..<GRID_STEPS]"
    using lt by (simp add: upt_conv_Cons)
  have "fill_inner g i j grid maxV = fill_inner g i (j + 1) grid1 maxV1"
    using lt
    by (subst fill_inner.simps)
      (simp add: Let_def grid1_def maxV1_def v_def grid_mu_def grid_sig_def)
  also have "\<dots> = (grid1[i := grid1 ! i @ map (\<lambda>j. g (grid_mu i) (grid_sig j)) [j + 1..<GRID_STEPS]],
        track_max maxV1 (map (\<lambda>j. g (grid_mu i) (grid_sig j)) [j + 1..<GRID_STEPS]))"
    using Suc.hyps(2) lt g1 by (intro Suc.hyps(1)) simp_all
  also have "\<dots> = (grid[i := grid ! i @ map (\<lambda>j. g (grid_mu i) (grid_sig j)) [j..<GRID_STEPS]],
        track_max maxV (map (\<lambda>j. g (grid_mu i) (grid_sig j)) [j..<GRID_STEPS]))"
  proof -
    have ow: "grid1[i := r] = grid[i := r]" for r
      by (simp add: grid1_def)
    show ?thesis
      unfolding u ow g1(2) by (simp add: track_max_def maxV1_def v_def)
  qed
  finally show ?case .
qed

lemma fill_outer_eq:
  "length grid = i \<Longrightarrow> i \<le> GRID_STEPS \<Longrightarrow>
   fill_outer g i grid maxV
     = (grid @ map (\<lambda>i. map (\<lambda>j. g (grid_mu i) (grid_sig j)) [0..<GRID_STEPS]) [i..<GRID_STEPS],
        track_max maxV
          (concat (map (\<lambda>i. map (\<lambda>j. g (grid_mu i) (grid_sig j)) [0..<GRID_STEPS]) [i..<GRID_STEPS])))"
proof (induction "GRID_STEPS - i" arbitrary: i grid maxV)
  case 0
  then have "i = GRID_STEPS" by simp
  then show ?case
    by (subst fill_outer.simps) (simp add: track_max_def)
next
  case (Suc d)
  then have lt: "i < GRID_STEPS" by simp
  define row where "row = map (\<lambda>j. g (grid_mu i) (grid_sig j)) [0..<GRID_STEPS]"
  define grid1 where "grid1 = array_set grid i []"
  have g1: "grid1 = grid @ [[]]" "i < length grid1" "grid1 ! i = []"
    using Suc.prems by (simp_all add: grid1_def array_set_def nth_append)
  have fi: "fill_inner g i 0 grid1 maxV = (grid @ [row], track_max maxV row)"
    using fill_inner_eq [of i grid1 0 g maxV] g1 Suc.prems
    by (simp add: row_def list_update_append)
  have u: "[i..<GRID_STEPS] = i # [i + 1..<GRID_STEPS]"
    using lt by (simp add: upt_conv_Cons)
  have "fill_outer g i grid maxV = fill_outer g (i + 1) (grid @ [row]) (track_max maxV row)"
    using lt
    by (subst fill_outer.simps) (simp add: Let_def grid1_def [symmetric] fi)
  also have "\<dots> = ((grid @ [row]) @ map (\<lambda>i. map (\<lambda>j. g (grid_mu i) (grid_sig j)) [0..<GRID_STEPS]) [i + 1..<GRID_STEPS],
        track_max (track_max maxV row)
          (concat (map (\<lambda>i. map (\<lambda>j. g (grid_mu i) (grid_sig j)) [0..<GRID_STEPS]) [i + 1..<GRID_STEPS])))"
    using Suc.hyps(2) lt Suc.prems by (intro Suc.hyps(1)) simp_all
  also have "\<dots> = (grid @ map (\<lambda>i. map (\<lambda>j. g (grid_mu i) (grid_sig j)) [0..<GRID_STEPS]) [i..<GRID_STEPS],
        track_max maxV
          (concat (map (\<lambda>i. map (\<lambda>j. g (grid_mu i) (grid_sig j)) [0..<GRID_STEPS]) [i..<GRID_STEPS])))"
    unfolding u by (simp add: row_def track_max_def)
  finally show ?case .
qed

lemma norm_inner_eq:
  "i < length grid \<Longrightarrow> length (grid ! i) = GRID_STEPS \<Longrightarrow> j \<le> GRID_STEPS \<Longrightarrow>
   norm_inner i j grid maxV
     = grid[i := take j (grid ! i) @ map (intensity maxV) (drop j (grid ! i))]"
proof (induction "GRID_STEPS - j" arbitrary: j grid)
  case 0
  then have "j = GRID_STEPS" by simp
  with 0 show ?case
    by (subst norm_inner.simps) simp
next
  case (Suc d)
  then have lt: "j < GRID_STEPS" by simp
  define grid1 where "grid1 = grid[i := array_set (grid ! i) j (intensity maxV (grid ! i ! j))]"
  have jl: "j < length (grid ! i)" using lt Suc.prems by simp
  have g1: "i < length grid1" "grid1 ! i = (grid ! i)[j := intensity maxV (grid ! i ! j)]"
    "length (grid1 ! i) = GRID_STEPS"
    using Suc.prems jl by (simp_all add: grid1_def array_set_def)
  have "norm_inner i j grid maxV = norm_inner i (j + 1) grid1 maxV"
    using lt by (subst norm_inner.simps) (simp add: grid1_def intensity_def)
  also have "\<dots> = grid1[i := take (j + 1) (grid1 ! i) @ map (intensity maxV) (drop (j + 1) (grid1 ! i))]"
    using Suc.hyps(2) lt g1 by (intro Suc.hyps(1)) simp_all
  also have "\<dots> = grid[i := take j (grid ! i) @ map (intensity maxV) (drop j (grid ! i))]"
  proof -
    have "take (j + 1) (grid1 ! i) = take j (grid ! i) @ [intensity maxV (grid ! i ! j)]"
      using jl by (simp add: g1(2) take_Suc_conv_app_nth)
    moreover have "drop (j + 1) (grid1 ! i) = drop (j + 1) (grid ! i)"
      by (simp add: g1(2))
    moreover have "drop j (grid ! i) = (grid ! i ! j) # drop (j + 1) (grid ! i)"
      using jl by (simp add: Cons_nth_drop_Suc)
    ultimately show ?thesis
      by (simp add: grid1_def)
  qed
  finally show ?case .
qed

lemma norm_outer_eq:
  "length grid = GRID_STEPS \<Longrightarrow> \<forall>row \<in> set grid. length row = GRID_STEPS \<Longrightarrow> i \<le> GRID_STEPS \<Longrightarrow>
   norm_outer i grid maxV = take i grid @ map (map (intensity maxV)) (drop i grid)"
proof (induction "GRID_STEPS - i" arbitrary: i grid)
  case 0
  then have "i = GRID_STEPS" by simp
  with 0 show ?case
    by (subst norm_outer.simps) simp
next
  case (Suc d)
  then have lt: "i < GRID_STEPS" by simp
  then have il: "i < length grid" using Suc.prems by simp
  then have rl: "length (grid ! i) = GRID_STEPS" using Suc.prems(2) by simp
  define grid1 where "grid1 = grid[i := map (intensity maxV) (grid ! i)]"
  have ni: "norm_inner i 0 grid maxV = grid1"
    using norm_inner_eq [OF il rl, of 0 maxV] by (simp add: grid1_def)
  have g1: "length grid1 = GRID_STEPS" "\<forall>row \<in> set grid1. length row = GRID_STEPS"
    using Suc.prems rl by (auto simp add: grid1_def dest!: set_update_subset_insert [THEN subsetD])
  have "norm_outer i grid maxV = norm_outer (i + 1) grid1 maxV"
    using lt by (subst norm_outer.simps) (simp add: ni)
  also have "\<dots> = take (i + 1) grid1 @ map (map (intensity maxV)) (drop (i + 1) grid1)"
    using Suc.hyps(2) lt g1 by (intro Suc.hyps(1)) simp_all
  also have "\<dots> = take i grid @ map (map (intensity maxV)) (drop i grid)"
  proof -
    have "take (i + 1) grid1 = take i grid @ [map (intensity maxV) (grid ! i)]"
      using il by (simp add: grid1_def take_Suc_conv_app_nth)
    moreover have "drop (i + 1) grid1 = drop (i + 1) grid"
      by (simp add: grid1_def)
    moreover have "drop i grid = (grid ! i) # drop (i + 1) grid"
      using il by (simp add: Cons_nth_drop_Suc)
    ultimately show ?thesis by simp
  qed
  finally show ?case .
qed

lemma buildContourGrid_on_eq:
  "buildContourGrid_on g
     = map (map (intensity (track_max NInf (concat (evaluations g))))) (evaluations g)"
proof -
  have f: "fill_outer g 0 [] NInf = (evaluations g, track_max NInf (concat (evaluations g)))"
    using fill_outer_eq [of "[]" 0 g NInf] by (simp add: evaluations_def)
  have "length (evaluations g) = GRID_STEPS" "\<forall>row \<in> set (evaluations g). length row = GRID_STEPS"
    by (auto simp add: evaluations_def)
  from norm_outer_eq [OF this, of 0] f show ?thesis
    by (simp add: buildContourGrid_on_def)
qed

lemma Math_max_Fin: "Math_max (Fin a) (Fin b) = Fin (max a b)"
  by (simp add: Math_max_def less_jsnum_def max_def)

lemma Math_max_NInf: "Math_max NInf (Fin b) = Fin b"
  by (simp add: Math_max_def less_jsnum_def)

lemma track_max_Cons:
  "track_max m (v # vs) = track_max (if isFinite v then Math_max m v else m) vs"
  by (simp add: track_max_def)

lemma track_max_from_finite:
  "\<exists>b. track_max (Fin a) vs = Fin b \<and> a \<le> b \<and>
       (\<forall>v \<in> set vs. isFinite v \<longrightarrow> real_of v \<le> b) \<and> (b = a \<or> Fin b \<in> set vs)"
proof (induction vs arbitrary: a)
  case Nil
  show ?case by (simp add: track_max_def)
next
  case (Cons v vs)
  show ?case
  proof (cases v)
    case (Fin r)
    from Cons.IH [of "max a r"] obtain b where b: "track_max (Fin (max a r)) vs = Fin b"
      "max a r \<le> b" "\<forall>v \<in> set vs. isFinite v \<longrightarrow> real_of v \<le> b" "b = max a r \<or> Fin b \<in> set vs"
      by blast
    have "track_max (Fin a) (v # vs) = Fin b"
      by (simp add: track_max_Cons Fin Math_max_Fin b(1))
    moreover have "a \<le> b" "r \<le> b" using b(2) by simp_all
    moreover have "b = a \<or> Fin b \<in> set (v # vs)"
      using b(4) Fin by (auto simp add: max_def split: if_splits)
    ultimately show ?thesis using b(3) Fin by auto
  next
    case PInf
    with Cons.IH [of a] show ?thesis by (auto simp add: track_max_Cons)
  next
    case NInf
    with Cons.IH [of a] show ?thesis by (auto simp add: track_max_Cons)
  next
    case NaN
    with Cons.IH [of a] show ?thesis by (auto simp add: track_max_Cons)
  qed
qed

lemma track_max_from_NInf:
  "(track_max NInf vs = NInf \<and> (\<forall>v \<in> set vs. \<not> isFinite v)) \<or>
   (\<exists>b. track_max NInf vs = Fin b \<and> Fin b \<in> set vs \<and>
        (\<forall>v \<in> set vs. isFinite v \<longrightarrow> real_of v \<le> b))"
proof (induction vs)
  case Nil
  show ?case by (simp add: track_max_def)
next
  case (Cons v vs)
  show ?case
  proof (cases v)
    case (Fin r)
    from track_max_from_finite [of r vs] obtain b where b: "track_max (Fin r) vs = Fin b"
      "r \<le> b" "\<forall>v \<in> set vs. isFinite v \<longrightarrow> real_of v \<le> b" "b = r \<or> Fin b \<in> set vs"
      by blast
    have "track_max NInf (v # vs) = Fin b"
      by (simp add: track_max_Cons Fin Math_max_NInf b(1))
    moreover have "Fin b \<in> set (v # vs)" using b(4) Fin by auto
    ultimately show ?thesis using b(2,3) Fin by auto
  next
    case PInf
    with Cons.IH show ?thesis by (auto simp add: track_max_Cons)
  next
    case NInf
    with Cons.IH show ?thesis by (auto simp add: track_max_Cons)
  next
    case NaN
    with Cons.IH show ?thesis by (auto simp add: track_max_Cons)
  qed
qed

text \<open>A finite number in \<open>[0, 1]\<close>.\<close>

definition unit_interval :: "jsnum \<Rightarrow> bool" where
  "unit_interval c \<longleftrightarrow> isFinite c \<and> 0 \<le> real_of c \<and> real_of c \<le> 1"

lemma intensity_not_finite: "\<not> isFinite c \<Longrightarrow> intensity maxV c = 0"
  by (simp add: intensity_def)

lemma intensity_unit:
  assumes "isFinite c \<longrightarrow> maxV = Fin b \<and> real_of c \<le> b"
  shows "unit_interval (intensity maxV c)"
proof (cases c)
  case (Fin r)
  with assms have "maxV = Fin b" "r \<le> b" by simp_all
  then show ?thesis
    by (simp add: intensity_def Fin unit_interval_def jsnum_lit)
qed (simp_all add: intensity_def unit_interval_def zero_jsnum_def)

lemma intensity_max: "intensity (Fin b) (Fin b) = 1"
  by (simp add: intensity_def jsnum_lit)

lemma evaluations_nth:
  "i < GRID_STEPS \<Longrightarrow> j < GRID_STEPS \<Longrightarrow> evaluations g ! i ! j = g (grid_mu i) (grid_sig j)"
  by (simp add: evaluations_def)

lemma evaluation_in_concat:
  "i < GRID_STEPS \<Longrightarrow> j < GRID_STEPS \<Longrightarrow> g (grid_mu i) (grid_sig j) \<in> set (concat (evaluations g))"
  by (simp add: evaluations_def) (intro bexI [of _ i] image_eqI [of _ _ j], simp_all)

lemma concat_evaluations_cases:
  assumes "v \<in> set (concat (evaluations g))"
  obtains i j where "i < GRID_STEPS" and "j < GRID_STEPS" and "v = g (grid_mu i) (grid_sig j)"
proof -
  from assms obtain i where "i < GRID_STEPS"
    and "v \<in> set (map (\<lambda>j. g (grid_mu i) (grid_sig j)) [0..<GRID_STEPS])"
    by (auto simp add: evaluations_def)
  then show ?thesis using that by auto
qed

lemma buildContourGrid_on_nth:
  "i < GRID_STEPS \<Longrightarrow> j < GRID_STEPS \<Longrightarrow>
   buildContourGrid_on g ! i ! j
     = intensity (track_max NInf (concat (evaluations g))) (g (grid_mu i) (grid_sig j))"
  by (simp add: buildContourGrid_on_eq evaluations_def)

lemma buildContourGrid_on_size:
  "length (buildContourGrid_on g) = GRID_STEPS"
  "i < GRID_STEPS \<Longrightarrow> length (buildContourGrid_on g ! i) = GRID_STEPS"
  by (simp_all add: buildContourGrid_on_eq evaluations_def)

lemma buildContourGrid_on_cells:
  assumes "i < GRID_STEPS" and "j < GRID_STEPS"
  shows "unit_interval (buildContourGrid_on g ! i ! j)"
    and "\<not> isFinite (g (grid_mu i) (grid_sig j)) \<Longrightarrow> buildContourGrid_on g ! i ! j = 0"
proof -
  define M where "M = track_max NInf (concat (evaluations g))"
  define c where "c = g (grid_mu i) (grid_sig j)"
  have mem: "c \<in> set (concat (evaluations g))"
    using assms unfolding c_def by (rule evaluation_in_concat)
  have cell: "buildContourGrid_on g ! i ! j = intensity M c"
    using assms by (simp add: buildContourGrid_on_nth M_def c_def)
  show "\<not> isFinite (g (grid_mu i) (grid_sig j)) \<Longrightarrow> buildContourGrid_on g ! i ! j = 0"
    by (simp add: cell c_def [symmetric] intensity_not_finite)
  from track_max_from_NInf [of "concat (evaluations g)"]
  show "unit_interval (buildContourGrid_on g ! i ! j)"
  proof
    assume "track_max NInf (concat (evaluations g)) = NInf \<and>
        (\<forall>v \<in> set (concat (evaluations g)). \<not> isFinite v)"
    with mem have "\<not> isFinite c" by blast
    then show ?thesis
      unfolding cell by (intro intensity_unit [of c M 0]) simp
  next
    assume "\<exists>b. track_max NInf (concat (evaluations g)) = Fin b \<and>
        Fin b \<in> set (concat (evaluations g)) \<and>
        (\<forall>v \<in> set (concat (evaluations g)). isFinite v \<longrightarrow> real_of v \<le> b)"
    then obtain b where "M = Fin b"
      and "\<forall>v \<in> set (concat (evaluations g)). isFinite v \<longrightarrow> real_of v \<le> b"
      unfolding M_def by blast
    with mem show ?thesis
      unfolding cell by (intro intensity_unit [of c M b]) blast
  qed
qed

lemma buildContourGrid_on_peak:
  assumes "i < GRID_STEPS" and "j < GRID_STEPS" and "isFinite (g (grid_mu i) (grid_sig j))"
  shows "\<exists>i' j'. i' < GRID_STEPS \<and> j' < GRID_STEPS \<and> buildContourGrid_on g ! i' ! j' = 1"
proof -
  have mem: "g (grid_mu i) (grid_sig j) \<in> set (concat (evaluations g))"
    using assms(1,2) by (rule evaluation_in_concat)
  from track_max_from_NInf [of "concat (evaluations g)"] mem assms(3)
  obtain b where b: "track_max NInf (concat (evaluations g)) = Fin b"
    "Fin b \<in> set (concat (evaluations g))"
    by blast
  from b(2) obtain i' j' where ij: "i' < GRID_STEPS" "j' < GRID_STEPS"
    "g (grid_mu i') (grid_sig j') = Fin b"
    by (rule concat_evaluations_cases) simp
  then have "buildContourGrid_on g ! i' ! j' = 1"
    by (simp add: buildContourGrid_on_nth b(1) intensity_max)
  with ij show ?thesis by blast
qed

lemma grid_point_finite:
  "\<exists>m s. grid_mu i = Fin m \<and> grid_sig j = Fin s \<and> 0 < s"
proof -
  have "grid_mu i = Fin (1 / 2 + real i / 49 * (17 / 10 - 1 / 2))"
    by (simp add: grid_mu_def MU_MIN_def MU_MAX_def GRID_STEPS_def jsnum_lit)
  moreover have "grid_sig j = Fin (2 / 10 + real j / 49 * (11 / 10 - 2 / 10))"
    by (simp add: grid_sig_def SIG_MIN_def SIG_MAX_def GRID_STEPS_def jsnum_lit)
  moreover have "(0 :: real) < 2 / 10 + real j / 49 * (11 / 10 - 2 / 10)"
    by (simp add: add_pos_nonneg)
  ultimately show ?thesis by blast
qed

lemma TARGET_LOG_PROB_grid_finite: "isFinite (TARGET_LOG_PROB (grid_mu i) (grid_sig j))"
proof -
  from grid_point_finite [of i j] obtain m s where "grid_mu i = Fin m" "grid_sig j = Fin s" "0 < s"
    by blast
  then show ?thesis by (simp add: TARGET_LOG_PROB_finite)
qed

text \<open>
  Claim C6. The grid has 50 rows of 50 cells. Every cell is a finite number in \<open>[0, 1]\<close>;
  a cell whose log-density is not finite is 0. If some evaluation is finite, some cell is
  exactly 1, which is then the maximum; if none is, every cell is 0. For the
  log-posterior of the program every evaluation on the grid is finite, so the maximum of
  the grid it builds is exactly 1.
\<close>

theorem buildContourGrid_normalized:
  "length (buildContourGrid_on g) = GRID_STEPS \<and>
   (\<forall>i<GRID_STEPS. length (buildContourGrid_on g ! i) = GRID_STEPS) \<and>
   (\<forall>i<GRID_STEPS. \<forall>j<GRID_STEPS.
      unit_interval (buildContourGrid_on g ! i ! j) \<and>
      (\<not> isFinite (g (grid_mu i) (grid_sig j)) \<longrightarrow> buildContourGrid_on g ! i ! j = 0)) \<and>
   ((\<exists>i<GRID_STEPS. \<exists>j<GRID_STEPS. isFinite (g (grid_mu i) (grid_sig j))) \<longrightarrow>
      (\<exists>i<GRID_STEPS. \<exists>j<GRID_STEPS. buildContourGrid_on g ! i ! j = 1)) \<and>
   ((\<forall>i<GRID_STEPS. \<forall>j<GRID_STEPS. \<not> isFinite (g (grid_mu i) (grid_sig j))) \<longrightarrow>
      (\<forall>i<GRID_STEPS. \<forall>j<GRID_STEPS. buildContourGrid_on g ! i ! j = 0)) \<and>
   (\<forall>i<GRID_STEPS. \<forall>j<GRID_STEPS. unit_interval (buildContourGrid ! i ! j)) \<and>
   (\<exists>i<GRID_STEPS. \<exists>j<GRID_STEPS. buildContourGrid ! i ! j = 1)"
proof (intro conjI)
  show "length (buildContourGrid_on g) = GRID_STEPS"
    by (rule buildContourGrid_on_size)
  show "\<forall>i<GRID_STEPS. length (buildContourGrid_on g ! i) = GRID_STEPS"
    by (simp add: buildContourGrid_on_size)
  show "\<forall>i<GRID_STEPS. \<forall>j<GRID_STEPS.
      unit_interval (buildContourGrid_on g ! i ! j) \<and>
      (\<not> isFinite (g (grid_mu i) (grid_sig j)) \<longrightarrow> buildContourGrid_on g ! i ! j = 0)"
    by (simp add: buildContourGrid_on_cells)
  show "(\<exists>i<GRID_STEPS. \<exists>j<GRID_STEPS. isFinite (g (grid_mu i) (grid_sig j))) \<longrightarrow>
      (\<exists>i<GRID_STEPS. \<exists>j<GRID_STEPS. buildContourGrid_on g ! i ! j = 1)"
    using buildContourGrid_on_peak [of _ _ g] by blast
  show "(\<forall>i<GRID_STEPS. \<forall>j<GRID_STEPS. \<not> isFinite (g (grid_mu i) (grid_sig j))) \<longrightarrow>
      (\<forall>i<GRID_STEPS. \<forall>j<GRID_STEPS. buildContourGrid_on g ! i ! j = 0)"
    by (simp add: buildContourGrid_on_cells)
  show "\<forall>i<GRID_STEPS. \<forall>j<GRID_STEPS. unit_interval (buildContourGrid ! i ! j)"
    by (simp add: buildContourGrid_def buildContourGrid_on_cells)
  have "0 < GRID_STEPS" by (simp add: GRID_STEPS_def)
  from buildContourGrid_on_peak [of 0 0 TARGET_LOG_PROB, OF this this TARGET_LOG_PROB_grid_finite]
  show "\<exists>i<GRID_STEPS. \<exists>j<GRID_STEPS. buildContourGrid ! i ! j = 1"
    by (simp add: buildContourGrid_def)
qed

theorem buildContourGrid_normalized_witness:
  "0 < GRID_STEPS \<and>
   length (buildContourGrid_on TARGET_LOG_PROB ! 0) = GRID_STEPS \<and>
   unit_interval (buildContourGrid_on TARGET_LOG_PROB ! 0 ! 0) \<and>
   isFinite (TARGET_LOG_PROB (grid_mu 0) (grid_sig 0)) \<and>
   (\<exists>i<GRID_STEPS. \<exists>j<GRID_STEPS. buildContourGrid_on TARGET_LOG_PROB ! i ! j = 1) \<and>
   \<not> isFinite NaN \<and>
   buildContourGrid_on (\<lambda>mu sig. NaN) ! 0 ! 0 = 0"
proof -
  have n: "0 < GRID_STEPS" by (simp add: GRID_STEPS_def)
  have f: "isFinite (TARGET_LOG_PROB (grid_mu 0) (grid_sig 0))"
    by (rule TARGET_LOG_PROB_grid_finite)
  note t = buildContourGrid_normalized [of TARGET_LOG_PROB]
  note u = buildContourGrid_normalized [of "\<lambda>mu sig. NaN"]
  from t n have a: "length (buildContourGrid_on TARGET_LOG_PROB ! 0) = GRID_STEPS"
    by blast
  from t n have b: "unit_interval (buildContourGrid_on TARGET_LOG_PROB ! 0 ! 0)"
    by blast
  from t n f have c: "\<exists>i<GRID_STEPS. \<exists>j<GRID_STEPS. buildContourGrid_on TARGET_LOG_PROB ! i ! j = 1"
    by blast
  have d: "\<not> isFinite NaN" by simp
  from u n d have e: "buildContourGrid_on (\<lambda>mu sig. NaN) ! 0 ! 0 = 0"
    by blast
  from n a b f c d e show ?thesis by blast
qed

section \<open>The Normal-Normal conjugate update\<close>




























section \<open>The Beta density\<close>

text \<open>
  \<open>betaPDF\<close> with its local functions \<open>logBeta\<close> and \<open>logGamma\<close>. The array \<open>c\<close> of
  \<open>logGamma\<close> is \<open>logGamma_c\<close>; its loop adds \<open>c[j] / y\<close> for the six coefficients.
\<close>

definition logGamma_c :: "jsnum list" where
  "logGamma_c = [76.18009173, - 86.50532033, 24.0140982, - 1.23173957, 0.00120865097,
     - 0.00000539523938]"

function logGamma_loop :: "nat \<Rightarrow> jsnum \<Rightarrow> jsnum \<Rightarrow> jsnum \<times> jsnum" where
  "logGamma_loop j y ser =
     (if j < 6 then
        (let y1 = y + 1; ser1 = ser + logGamma_c ! j / y1 in logGamma_loop (j + 1) y1 ser1)
      else (y, ser))"
  by pat_completeness auto
termination
  by (relation "measure (\<lambda>(j, y, ser). 6 - j)") auto

declare logGamma_loop.simps [simp del]

definition logGamma :: "jsnum \<Rightarrow> jsnum" where
  "logGamma z =
     (let y = z; x2 = z;
          tmp = z + 5.5 - (z + 0.5) * Math_log (z + 5.5);
          ser = 1.0000000002;
          (y', ser') = logGamma_loop 0 y ser
      in - tmp + Math_log (2.5066282746 * ser' / x2))"

definition logBeta :: "jsnum \<Rightarrow> jsnum \<Rightarrow> jsnum" where
  "logBeta a b = logGamma a + logGamma b - logGamma (a + b)"

definition betaPDF :: "jsnum \<Rightarrow> jsnum \<Rightarrow> jsnum \<Rightarrow> jsnum" where
  "betaPDF x a b =
     (if x \<le> 0 \<or> 1 \<le> x then 0
      else Math_exp ((a - 1) * Math_log x + (b - 1) * Math_log (1 - x) - logBeta a b))"

subsection \<open>The uniform case\<close>

lemma logGamma_loop_step:
  "j < 6 \<Longrightarrow> logGamma_loop j y ser = logGamma_loop (Suc j) (y + 1) (ser + logGamma_c ! j / (y + 1))"
  by (subst logGamma_loop.simps) (simp add: Let_def)

lemma logGamma_loop_done: "logGamma_loop (Suc (Suc (Suc (Suc (Suc (Suc 0)))))) y ser = (y, ser)"
  by (subst logGamma_loop.simps) simp

lemma logGamma_loop_unrolled:
  "logGamma_loop 0 y ser =
     (y + 1 + 1 + 1 + 1 + 1 + 1,
      ser + logGamma_c ! 0 / (y + 1) + logGamma_c ! 1 / (y + 1 + 1)
        + logGamma_c ! 2 / (y + 1 + 1 + 1) + logGamma_c ! 3 / (y + 1 + 1 + 1 + 1)
        + logGamma_c ! 4 / (y + 1 + 1 + 1 + 1 + 1) + logGamma_c ! 5 / (y + 1 + 1 + 1 + 1 + 1 + 1))"
  by (simp add: logGamma_loop_step logGamma_loop_done eval_nat_numeral)

lemma logGamma_loop_1: "logGamma_loop 0 (Fin 1) (Fin (10000000002 / 10000000000))
   = (Fin 7, Fin (16812932215393843/1050000000000000))"
  by (simp add: logGamma_loop_unrolled logGamma_c_def jsnum_lit)

lemma logGamma_loop_2: "logGamma_loop 0 (Fin 2) (Fin (10000000002 / 10000000000))
   = (Fin 8, Fin (78663778446842651/8400000000000000))"
  by (simp add: logGamma_loop_unrolled logGamma_c_def jsnum_lit)

lemma logGamma_1: "logGamma (Fin 1) = Fin (- (13/2 - 3/2 * ln (13/2)) + ln (25066282746 / 10000000000 * (16812932215393843/1050000000000000)))"
  using logGamma_loop_1 by (simp add: logGamma_def Let_def jsnum_lit)

lemma logGamma_2: "logGamma (Fin 2) = Fin (- (15/2 - 5/2 * ln (15/2)) + ln (25066282746 / 10000000000 * (78663778446842651/8400000000000000) / 2))"
  using logGamma_loop_2 by (simp add: logGamma_def Let_def jsnum_lit)

text \<open>The value of \<open>logBeta(1, 1)\<close> as the code computes it, on the reals.\<close>

definition logBeta_1_1 :: real where
  "logBeta_1_1 =
     (let lg1 = - (13/2 - 3/2 * ln (13/2))
                + ln (25066282746 / 10000000000 * (16812932215393843/1050000000000000));
          lg2 = - (15/2 - 5/2 * ln (15/2))
                + ln (25066282746 / 10000000000 * (78663778446842651/8400000000000000) / 2)
      in lg1 + lg1 - lg2)"

lemma logBeta_1_1_eq: "logBeta 1 1 = Fin logBeta_1_1"
proof -
  have "logBeta 1 1 = logGamma (Fin 1) + logGamma (Fin 1) - logGamma (Fin 2)"
    by (simp add: logBeta_def jsnum_lit)
  also have "\<dots> = Fin logBeta_1_1"
    unfolding logGamma_1 logGamma_2 logBeta_1_1_def Let_def by (simp add: jsnum_ops)
  finally show ?thesis .
qed

lemma betaPDF_uniform_value:
  assumes "0 < x" and "x < 1"
  shows "betaPDF (Fin x) 1 1 = Fin (exp (- logBeta_1_1))"
proof -
  have "betaPDF (Fin x) 1 1
      = Math_exp ((1 - 1) * Math_log (Fin x) + (1 - 1) * Math_log (1 - Fin x) - logBeta 1 1)"
    using assms by (simp add: betaPDF_def jsnum_lit)
  also have "\<dots> = Fin (exp (- logBeta_1_1))"
    unfolding logBeta_1_1_eq using assms by (simp add: jsnum_lit)
  finally show ?thesis .
qed

text \<open>
  Bounds for \<open>e\<close> from fifteen terms of the exponential series, and with them for
  \<open>exp 11\<close>; \<open>2 * logBeta_1_1 + 11\<close> is the logarithm of a rational number, which lies
  just below \<open>exp 11\<close>.
\<close>

lemma exp_1_bounds:
  "(47395032961 / 17435658240 :: real) < exp 1"
  "exp 1 \<le> (47395032961 / 17435658240 + 3 / 1307674368000 :: real)"
proof -
  from Maclaurin_exp_le [of 1 15] obtain t :: real where t: "\<bar>t\<bar> \<le> 1"
    and e: "exp 1 = (\<Sum>m<15. 1 ^ m / fact m) + exp t / fact 15 * 1 ^ 15"
    by auto
  have s: "(\<Sum>m<15. (1 :: real) ^ m / fact m) = 47395032961 / 17435658240"
    by (simp add: eval_nat_numeral)
  have f: "(fact 15 :: real) = 1307674368000"
    by (simp add: eval_nat_numeral)
  have "exp t \<le> exp 1" using t by simp
  with exp_le have u: "exp t \<le> 3" by linarith
  have p: "0 < exp t" by simp
  from e have e': "exp 1 = 47395032961 / 17435658240 + exp t / 1307674368000"
    by (simp only: s f) simp
  from e' p show "(47395032961 / 17435658240 :: real) < exp 1" by simp
  from e' u show "exp 1 \<le> (47395032961 / 17435658240 + 3 / 1307674368000 :: real)" by simp
qed

lemma exp_11_eq: "exp (11 :: real) = exp 1 ^ 11"
  using exp_of_nat_mult [of 11 "1 :: real"] by simp

definition lanczos_ratio :: real where
  "lanczos_ratio =
     (13/2) ^ 6 * (25066282746 / 10000000000 * (16812932215393843/1050000000000000)) ^ 4
       / ((15/2) ^ 5 * (25066282746 / 10000000000 * (78663778446842651/8400000000000000) / 2) ^ 2)"

lemma ln_lanczos_ratio: "ln lanczos_ratio = 2 * logBeta_1_1 + 11"
proof -
  have g: "ln (a ^ 6 * b ^ 4 / (c ^ 5 * d ^ 2)) = 6 * ln a + 4 * ln b - 5 * ln c - 2 * ln d"
    if "0 < a" "0 < b" "0 < c" "0 < d" for a b c d :: real
    using that by (simp add: ln_div ln_mult ln_realpow)
  show ?thesis
    unfolding lanczos_ratio_def logBeta_1_1_def Let_def
    by (subst g) simp_all
qed

lemma lanczos_ratio_upper: "lanczos_ratio < exp 11"
proof -
  have "lanczos_ratio < (47395032961 / 17435658240) ^ 11"
    by (simp add: lanczos_ratio_def power_divide)
  also have "\<dots> \<le> exp 1 ^ 11"
    using exp_1_bounds(1) by (intro power_mono) simp_all
  finally show ?thesis by (simp add: exp_11_eq)
qed

lemma lanczos_ratio_lower: "exp (11 - 18 / 10 ^ 10) < lanczos_ratio"
proof -
  have "exp (11 - 18 / 10 ^ 10 :: real) = exp 11 / exp (18 / 10 ^ 10)"
    by (rule exp_diff)
  also have "\<dots> \<le> exp 11 / (1 + 18 / 10 ^ 10)"
    using exp_ge_add_one_self [of "18 / 10 ^ 10 :: real"]
    by (intro divide_left_mono) simp_all
  also have "\<dots> \<le> (47395032961 / 17435658240 + 3 / 1307674368000) ^ 11 / (1 + 18 / 10 ^ 10)"
    unfolding exp_11_eq
    using exp_1_bounds(2) by (intro divide_right_mono power_mono) simp_all
  also have "\<dots> < lanczos_ratio"
    by (simp add: lanczos_ratio_def power_divide)
  finally show ?thesis .
qed

lemma lanczos_ratio_positive: "0 < lanczos_ratio"
  by (simp add: lanczos_ratio_def)

lemma logBeta_1_1_bounds: "- (9 / 10 ^ 10) < logBeta_1_1" "logBeta_1_1 < 0"
proof -
  have "ln lanczos_ratio < ln (exp 11)"
    using lanczos_ratio_upper lanczos_ratio_positive by (simp only: ln_less_cancel_iff exp_gt_zero)
  then show "logBeta_1_1 < 0"
    by (simp add: ln_lanczos_ratio)
  have "ln (exp (11 - 18 / 10 ^ 10)) < ln lanczos_ratio"
    using lanczos_ratio_lower lanczos_ratio_positive by (simp only: ln_less_cancel_iff exp_gt_zero)
  then show "- (9 / 10 ^ 10) < logBeta_1_1"
    by (simp add: ln_lanczos_ratio)
qed

lemma exp_minus_logBeta_1_1: "1 < exp (- logBeta_1_1)" "exp (- logBeta_1_1) < 1 + 1 / 10 ^ 9"
proof -
  from logBeta_1_1_bounds(2) show "1 < exp (- logBeta_1_1)" by simp
  have "exp (- logBeta_1_1) < exp (9 / 10 ^ 10)"
    using logBeta_1_1_bounds(1) by simp
  also have "exp (9 / 10 ^ 10 :: real) \<le> 1 + 9 / 10 ^ 10 + (9 / 10 ^ 10)\<^sup>2"
    by (rule exp_bound) simp_all
  also have "\<dots> < 1 + 1 / 10 ^ 9" by (simp add: power2_eq_square)
  finally show "exp (- logBeta_1_1) < 1 + 1 / 10 ^ 9" .
qed

text \<open>
  Claim C8, as stated: for \<open>alpha = beta = 1\<close> the density is exactly 1 on \<open>(0, 1)\<close>. It
  fails at \<open>x = 0.5\<close>: the approximated \<open>logBeta(1, 1)\<close> is not 0, and the value is
  greater than 1.
\<close>

theorem betaPDF_uniform_counterexample:
  "betaPDF 0.5 1 1 \<noteq> 1 \<and> betaPDF 0.5 1 1 = Fin (exp (- logBeta_1_1)) \<and> 1 < exp (- logBeta_1_1)"
proof -
  have "betaPDF (Fin (1 / 2)) 1 1 = Fin (exp (- logBeta_1_1))"
    by (rule betaPDF_uniform_value) simp_all
  then have v: "betaPDF 0.5 1 1 = Fin (exp (- logBeta_1_1))"
    by (simp add: jsnum_lit)
  with exp_minus_logBeta_1_1(1) show ?thesis
    by (simp add: one_jsnum_def)
qed

text \<open>
  Claim C8, amended. \<open>betaPDF(x, alpha, beta)\<close> returns 0 for every \<open>x \<le> 0\<close> and every
  \<open>x \<ge> 1\<close>. For \<open>alpha = beta = 1\<close> it returns one and the same value for every \<open>x\<close> in the
  open interval \<open>(0, 1)\<close>, and that value lies strictly between 1 and \<open>1 + 10\<^sup>-\<^sup>9\<close>.
\<close>

theorem betaPDF_support_and_uniform:
  "(x \<le> 0 \<or> 1 \<le> x \<longrightarrow> betaPDF x a b = 0) \<and>
   (0 < r \<and> r < 1 \<longrightarrow> betaPDF (Fin r) 1 1 = Fin (exp (- logBeta_1_1))) \<and>
   1 < exp (- logBeta_1_1) \<and> exp (- logBeta_1_1) < 1 + 1 / 10 ^ 9"
proof (intro conjI impI)
  assume "x \<le> 0 \<or> 1 \<le> x"
  then show "betaPDF x a b = 0" by (simp add: betaPDF_def)
next
  assume "0 < r \<and> r < 1"
  then show "betaPDF (Fin r) 1 1 = Fin (exp (- logBeta_1_1))"
    by (simp add: betaPDF_uniform_value)
next
  show "1 < exp (- logBeta_1_1)" by (rule exp_minus_logBeta_1_1)
  show "exp (- logBeta_1_1) < 1 + 1 / 10 ^ 9" by (rule exp_minus_logBeta_1_1)
qed

text \<open>At \<open>x = 0\<close> and at \<open>x = 1\<close> with the prior \<open>(2, 8)\<close>, and at \<open>x = 0.25\<close> in the uniform case.\<close>

theorem betaPDF_support_and_uniform_witness:
  "(0 :: jsnum) \<le> 0 \<and> betaPDF 0 2 8 = 0 \<and>
   (1 :: jsnum) \<le> 1 \<and> betaPDF 1 2 8 = 0 \<and>
   (0 :: real) < 1 / 4 \<and> (1 / 4 :: real) < 1 \<and>
   betaPDF (Fin (1 / 4)) 1 1 = Fin (exp (- logBeta_1_1))"
proof -
  have a: "(0 :: jsnum) \<le> 0" and b: "(1 :: jsnum) \<le> 1"
    by (simp_all add: jsnum_ops)
  have c: "(0 :: real) < 1 / 4 \<and> (1 / 4 :: real) < 1"
    by simp
  from betaPDF_support_and_uniform [of 0 2 8] a have "betaPDF 0 2 8 = 0"
    by blast
  moreover from betaPDF_support_and_uniform [of 1 2 8] b have "betaPDF 1 2 8 = 0"
    by blast
  moreover from betaPDF_support_and_uniform [of 0 0 0 "1 / 4"]
  have "betaPDF (Fin (1 / 4)) 1 1 = Fin (exp (- logBeta_1_1))"
    by simp
  ultimately show ?thesis using a b c by blast
qed

section \<open>The Beta-Binomial updater\<close>

text \<open>
  The component holds the index of the chosen prior, the list of observations and an
  animation key. At every rendering it derives the counts and the posterior parameters
  from them. An index outside \<open>PRESETS\<close> would raise a \<open>TypeError\<close> (the value is
  \<open>None\<close>); the buttons only set indices of \<open>PRESETS\<close>.
\<close>

record Preset =
  preset_label :: string
  preset_a :: nat
  preset_b :: nat

definition PRESETS :: "Preset list" where
  "PRESETS =
     [\<lparr>preset_label = ''Uninformative'', preset_a = 1, preset_b = 1\<rparr>,
      \<lparr>preset_label = ''Skeptical (~20%)'', preset_a = 2, preset_b = 8\<rparr>,
      \<lparr>preset_label = ''Optimistic (~60%)'', preset_a = 6, preset_b = 4\<rparr>,
      \<lparr>preset_label = ''Informed (~40%)'', preset_a = 4, preset_b = 6\<rparr>]"

record BetaBinomial =
  priorPreset :: nat
  observations :: "bool list"
  animKey :: nat

record Derived =
  priorA :: nat
  priorB :: nat
  successes :: nat
  failures :: nat
  postA :: nat
  postB :: nat
  n_observations :: nat
  posteriorMean :: jsnum

definition BetaBinomialUpdater :: "BetaBinomial \<Rightarrow> Derived option" where
  "BetaBinomialUpdater st =
     (if priorPreset st < length PRESETS then
        (let pA = preset_a (PRESETS ! priorPreset st);
             pB = preset_b (PRESETS ! priorPreset st);
             succ = length (filter (\<lambda>v. v) (observations st));
             fail = length (filter (\<lambda>v. \<not> v) (observations st));
             pstA = pA + succ;
             pstB = pB + fail
         in Some \<lparr>priorA = pA, priorB = pB, successes = succ, failures = fail,
                  postA = pstA, postB = pstB, n_observations = length (observations st),
                  posteriorMean = Num pstA / Num (pstA + pstB)\<rparr>)
      else None)"

definition addObs :: "bool \<Rightarrow> BetaBinomial \<Rightarrow> BetaBinomial" where
  "addObs success st = st\<lparr>observations := observations st @ [success], animKey := animKey st + 1\<rparr>"

definition reset :: "BetaBinomial \<Rightarrow> BetaBinomial" where
  "reset st = st\<lparr>observations := [], animKey := animKey st + 1\<rparr>"

text \<open>A prior button: \<open>setPriorPreset(i); reset()\<close>.\<close>

definition selectPreset :: "nat \<Rightarrow> BetaBinomial \<Rightarrow> BetaBinomial" where
  "selectPreset i st = reset (st\<lparr>priorPreset := i\<rparr>)"

definition initial_BetaBinomial :: BetaBinomial where
  "initial_BetaBinomial = \<lparr>priorPreset = 0, observations = [], animKey = 0\<rparr>"

text \<open>The state after the user has chosen prior \<open>i\<close> and entered the observations one by one.\<close>

definition after_observing :: "nat \<Rightarrow> bool list \<Rightarrow> BetaBinomial \<Rightarrow> BetaBinomial" where
  "after_observing i obs st0 = foldl (\<lambda>s ob. addObs ob s) (selectPreset i st0) obs"

lemma observations_fold_addObs:
  "observations (foldl (\<lambda>s ob. addObs ob s) st obs) = observations st @ obs"
  by (induction obs arbitrary: st) (simp_all add: addObs_def)

lemma priorPreset_fold_addObs:
  "priorPreset (foldl (\<lambda>s ob. addObs ob s) st obs) = priorPreset st"
  by (induction obs arbitrary: st) (simp_all add: addObs_def)

lemma failures_eq: "length (filter (\<lambda>v. \<not> v) obs) = length obs - length (filter (\<lambda>v. v) obs)"
  using sum_length_filter_compl [of "\<lambda>v. v" obs] by simp

lemma after_observing_fields:
  "observations (after_observing i obs st0) = obs"
  "priorPreset (after_observing i obs st0) = i"
  by (simp_all add: after_observing_def observations_fold_addObs priorPreset_fold_addObs
      selectPreset_def reset_def)

text \<open>
  Claim C5. For every prior \<open>(\<alpha>, \<beta>)\<close> the component offers and every sequence of
  observations with \<open>k\<close> successes among \<open>n\<close>, the posterior parameters are
  \<open>(\<alpha> + k, \<beta> + n - k)\<close>; one more observation adds exactly one to one of the two. From
  the prior \<open>(1, 1)\<close>, three successes and one failure give \<open>(4, 2)\<close> with mean \<open>4 / 6\<close>.
\<close>

theorem beta_binomial_update:
  assumes "i < length PRESETS"
  shows "\<exists>d dT dF.
     BetaBinomialUpdater (after_observing i obs st0) = Some d \<and>
     priorA d = preset_a (PRESETS ! i) \<and> priorB d = preset_b (PRESETS ! i) \<and>
     postA d = priorA d + length (filter (\<lambda>v. v) obs) \<and>
     postB d = priorB d + (length obs - length (filter (\<lambda>v. v) obs)) \<and>
     posteriorMean d = Num (postA d) / Num (postA d + postB d) \<and>
     BetaBinomialUpdater (addObs True (after_observing i obs st0)) = Some dT \<and>
     postA dT = postA d + 1 \<and> postB dT = postB d \<and>
     BetaBinomialUpdater (addObs False (after_observing i obs st0)) = Some dF \<and>
     postA dF = postA d \<and> postB dF = postB d + 1 \<and>
     (i = 0 \<and> length (filter (\<lambda>v. v) obs) = 3 \<and> length obs = 4 \<longrightarrow>
        postA d = 4 \<and> postB d = 2 \<and> posteriorMean d = Fin (4 / 6))"
  using assms
  by (simp add: BetaBinomialUpdater_def Let_def after_observing_fields addObs_def failures_eq)
    (simp add: PRESETS_def jsnum_lit)

theorem beta_binomial_update_witness:
  "0 < length PRESETS \<and>
   map_option (\<lambda>d. (postA d, postB d, posteriorMean d))
     (BetaBinomialUpdater (after_observing 0 [True, False, True, True] initial_BetaBinomial))
     = Some (4, 2, Fin (4 / 6))"
proof -
  have h: "0 < length PRESETS" by (simp add: PRESETS_def)
  from beta_binomial_update [OF h, of "[True, False, True, True]" initial_BetaBinomial]
  obtain d where "BetaBinomialUpdater (after_observing 0 [True, False, True, True] initial_BetaBinomial) = Some d"
    and "postA d = 4 \<and> postB d = 2 \<and> posteriorMean d = Fin (4 / 6)"
    by auto
  with h show ?thesis by simp
qed

end
